theory Spec2Isabelle
  imports Complex_Main
begin

section \<open>JavaScript values and strings\<close>

text \<open>
  The tracker's core (\<^verbatim>\<open>src/lib/creatine.ts\<close>) works on three kinds of data: untyped
  values read back from JSON text, strings used as day keys, and \<^verbatim>\<open>Date\<close> objects
  read in local time. This section models the first two.

  A value is what \<^verbatim>\<open>JSON.parse\<close> can return, plus \<^verbatim>\<open>undefined\<close> (the result of
  reading a property that is not there). Numbers are the finite values, as rationals;
  no function below computes with them, they are only tested with \<^verbatim>\<open>typeof\<close>,
  compared with a literal and copied. An object is the list of its own properties in
  the order \<^verbatim>\<open>Object.entries\<close> enumerates them. Strings are lists of characters;
  the functions below only ever inspect ASCII digits and the dash.
\<close>

datatype jsvalue =
    JUndefined
  | JNull
  | JBool bool
  | JNumber rat
  | JString string
  | JArray "jsvalue list"
  | JObject "(string \<times> jsvalue) list"

datatype jserror = TypeError

fun typeof :: "jsvalue \<Rightarrow> string" where
  "typeof JUndefined = ''undefined''"
| "typeof JNull = ''object''"
| "typeof (JBool b) = ''boolean''"
| "typeof (JNumber n) = ''number''"
| "typeof (JString s) = ''string''"
| "typeof (JArray xs) = ''object''"
| "typeof (JObject kvs) = ''object''"

text \<open>\<^verbatim>\<open>!v\<close> is \<open>\<not> truthy v\<close>.\<close>

fun truthy :: "jsvalue \<Rightarrow> bool" where
  "truthy JUndefined = False"
| "truthy JNull = False"
| "truthy (JBool b) = b"
| "truthy (JNumber n) = (n \<noteq> 0)"
| "truthy (JString s) = (s \<noteq> [])"
| "truthy (JArray xs) = True"
| "truthy (JObject kvs) = True"

subsection \<open>Decimal digits\<close>

definition isDigit :: "char \<Rightarrow> bool" where
  "isDigit c = (48 \<le> (of_char c :: nat) \<and> (of_char c :: nat) \<le> 57)"

definition digitVal :: "char \<Rightarrow> nat" where
  "digitVal c = of_char c - 48"

definition digitChar :: "nat \<Rightarrow> char" where
  "digitChar d = char_of (48 + d)"

text \<open>\<^verbatim>\<open>String(n)\<close> for a non-negative integer \<open>n\<close>.\<close>

fun digitsOf :: "nat \<Rightarrow> string" where
  "digitsOf n = (if n < 10 then [digitChar n] else digitsOf (n div 10) @ [digitChar (n mod 10)])"

declare digitsOf.simps [simp del]

subsection \<open>Property access\<close>

text \<open>
  \<^verbatim>\<open>v.name\<close>: reading a property of \<^verbatim>\<open>null\<close> or \<^verbatim>\<open>undefined\<close> throws; an object
  gives its own property or \<^verbatim>\<open>undefined\<close>. The names read in this program
  (\<^verbatim>\<open>startDate\<close>, \<^verbatim>\<open>taken\<close>, \<^verbatim>\<open>version\<close>, \<^verbatim>\<open>updatedAt\<close>) are no property of an
  array, of a primitive or of a prototype, so every other value gives \<^verbatim>\<open>undefined\<close>.
\<close>

fun getProp :: "jsvalue \<Rightarrow> string \<Rightarrow> jserror + jsvalue" where
  "getProp JUndefined name = Inl TypeError"
| "getProp JNull name = Inl TypeError"
| "getProp (JObject kvs) name = Inr (case map_of kvs name of None \<Rightarrow> JUndefined | Some v \<Rightarrow> v)"
| "getProp v name = Inr JUndefined"

text \<open>
  \<^verbatim>\<open>Object.entries(v)\<close>: throws on \<^verbatim>\<open>null\<close> and \<^verbatim>\<open>undefined\<close>; an array and a
  string enumerate their indices, a number and a boolean have no entries.
\<close>

fun objectEntries :: "jsvalue \<Rightarrow> jserror + (string \<times> jsvalue) list" where
  "objectEntries JUndefined = Inl TypeError"
| "objectEntries JNull = Inl TypeError"
| "objectEntries (JObject kvs) = Inr kvs"
| "objectEntries (JArray xs) = Inr (zip (map digitsOf [0..<length xs]) xs)"
| "objectEntries (JString s) = Inr (zip (map digitsOf [0..<length s]) (map (\<lambda>c. JString [c]) s))"
| "objectEntries v = Inr []"

text \<open>
  \<^verbatim>\<open>obj[k] = v\<close> on a plain object: an existing property keeps its place, a new one
  goes last. (JavaScript enumerates canonical array indices first; a day key has
  dashes and is none.)
\<close>

fun setProp :: "(string \<times> 'a) list \<Rightarrow> string \<Rightarrow> 'a \<Rightarrow> (string \<times> 'a) list" where
  "setProp [] k v = [(k, v)]"
| "setProp ((k', v') # rest) k v =
     (if k' = k then (k, v) # rest else (k', v') # setProp rest k v)"

subsection \<open>String comparison\<close>

text \<open>\<^verbatim>\<open>a < b\<close> on strings: lexicographic by character code, a proper prefix first.\<close>

fun strLess :: "string \<Rightarrow> string \<Rightarrow> bool" where
  "strLess [] [] = False"
| "strLess [] (y # ys) = True"
| "strLess (x # xs) [] = False"
| "strLess (x # xs) (y # ys) =
     (if (of_char x :: nat) < of_char y then True
      else if (of_char y :: nat) < of_char x then False
      else strLess xs ys)"

section \<open>Day keys and the save record\<close>

text \<open>
  \<^verbatim>\<open>isISODateKey\<close>: a string matching \<^verbatim>\<open>/^\d{4}-\d{2}-\d{2}$/\<close>. Without flags,
  \<^verbatim>\<open>\d\<close> is an ASCII digit and \<^verbatim>\<open>$\<close> is the end of the input.
\<close>

fun matchesISODate :: "string \<Rightarrow> bool" where
  "matchesISODate [y1, y2, y3, y4, s1, m1, m2, s2, d1, d2] =
     (isDigit y1 \<and> isDigit y2 \<and> isDigit y3 \<and> isDigit y4 \<and> s1 = CHR ''-'' \<and>
      isDigit m1 \<and> isDigit m2 \<and> s2 = CHR ''-'' \<and> isDigit d1 \<and> isDigit d2)"
| "matchesISODate s = False"

fun isISODateKey :: "jsvalue \<Rightarrow> bool" where
  "isISODateKey (JString s) = matchesISODate s"
| "isISODateKey v = False"

text \<open>
  \<^verbatim>\<open>v as ISODate\<close> has no effect at run time; the record field is a string, and the
  cast is only applied to a value that passed \<^verbatim>\<open>isISODateKey\<close>.
\<close>

fun asISODate :: "jsvalue \<Rightarrow> string" where
  "asISODate (JString s) = s"
| "asISODate v = []"

definition compareISODate :: "string \<Rightarrow> string \<Rightarrow> int" where
  "compareISODate a b = (if strLess a b then - 1 else if strLess b a then 1 else 0)"

text \<open>
  \<^verbatim>\<open>SaveDataV2\<close>. A \<^verbatim>\<open>TakenAt\<close> is a number or \<^verbatim>\<open>null\<close> (\<open>None\<close>); \<^verbatim>\<open>taken\<close> is
  a plain object, the list of its entries.
\<close>

type_synonym TakenAt = "rat option"

record SaveDataV2 =
  version :: rat
  startDate :: string
  taken :: "(string \<times> TakenAt) list"
  updatedAt :: rat

record StreakInfo =
  length_si :: int
  start_si :: "string option"
  end_si :: "string option"

text \<open>\<^verbatim>\<open>Object.prototype.hasOwnProperty.call(save.taken, key)\<close>.\<close>

definition isTaken :: "SaveDataV2 \<Rightarrow> string \<Rightarrow> bool" where
  "isTaken save key = (key \<in> set (map fst (taken save)))"

subsection \<open>coerceSave\<close>

text \<open>The loop of the version 2 branch over \<^verbatim>\<open>Object.entries(takenRaw)\<close>.\<close>

fun coerceTakenV2 :: "(string \<times> jsvalue) list \<Rightarrow> (string \<times> TakenAt) list \<Rightarrow> (string \<times> TakenAt) list" where
  "coerceTakenV2 [] tk = tk"
| "coerceTakenV2 ((k, v) # rest) tk =
     (if \<not> isISODateKey (JString k) then coerceTakenV2 rest tk
      else case v of
        JNumber n \<Rightarrow> coerceTakenV2 rest (setProp tk k (Some n))
      | JNull \<Rightarrow> coerceTakenV2 rest (setProp tk k None)
      | _ \<Rightarrow> coerceTakenV2 rest tk)"

text \<open>The loop of the version 1 branch.\<close>

fun coerceTakenV1 :: "(string \<times> jsvalue) list \<Rightarrow> (string \<times> TakenAt) list \<Rightarrow> (string \<times> TakenAt) list" where
  "coerceTakenV1 [] tk = tk"
| "coerceTakenV1 ((k, v) # rest) tk =
     (if \<not> isISODateKey (JString k) then coerceTakenV1 rest tk
      else if v = JBool True then coerceTakenV1 rest (setProp tk k None)
      else coerceTakenV1 rest tk)"

text \<open>\<^verbatim>\<open>typeof obj.updatedAt === 'number' ? obj.updatedAt : Date.now()\<close>.\<close>

fun updatedAtOr :: "rat \<Rightarrow> jsvalue \<Rightarrow> rat" where
  "updatedAtOr now (JNumber n) = n"
| "updatedAtOr now v = now"

text \<open>
  \<^verbatim>\<open>coerceSave(input)\<close>. The first argument is the value of \<^verbatim>\<open>Date.now()\<close>. The
  result is \<open>Inl\<close> for an exception, \<open>Inr None\<close> for \<^verbatim>\<open>null\<close> and \<open>Inr (Some r)\<close>
  for a record. Every property read and the call of \<^verbatim>\<open>Object.entries\<close> can throw in
  the model, as they can in JavaScript; \<open>throwing m f\<close> continues with \<open>f\<close> unless
  \<open>m\<close> threw.
\<close>

definition throwing :: "jserror + 'a \<Rightarrow> ('a \<Rightarrow> jserror + 'b) \<Rightarrow> jserror + 'b" where
  "throwing m f = (case m of Inl e \<Rightarrow> Inl e | Inr x \<Rightarrow> f x)"

definition coerceSave :: "rat \<Rightarrow> jsvalue \<Rightarrow> jserror + SaveDataV2 option" where
  "coerceSave now input =
     (if \<not> truthy input \<or> typeof input \<noteq> ''object'' then Inr None
      else throwing (getProp input ''startDate'') (\<lambda>sd.
        if \<not> isISODateKey sd then Inr None
        else throwing (getProp input ''taken'') (\<lambda>takenRaw.
          if \<not> truthy takenRaw \<or> typeof takenRaw \<noteq> ''object'' then Inr None
          else throwing (getProp input ''version'') (\<lambda>ver.
            if ver = JNumber 2 then
              throwing (objectEntries takenRaw) (\<lambda>entries.
                throwing (getProp input ''updatedAt'') (\<lambda>upd.
                  Inr (Some \<lparr>version = 2, startDate = asISODate sd,
                             taken = coerceTakenV2 entries [],
                             updatedAt = updatedAtOr now upd\<rparr>)))
            else if ver = JNumber 1 then
              throwing (objectEntries takenRaw) (\<lambda>entries.
                throwing (getProp input ''updatedAt'') (\<lambda>upd.
                  Inr (Some \<lparr>version = 2, startDate = asISODate sd,
                             taken = coerceTakenV1 entries [],
                             updatedAt = updatedAtOr now upd\<rparr>)))
            else Inr None))))"

subsection \<open>ensureStartDate\<close>

text \<open>\<^verbatim>\<open>!save.startDate\<close> holds of the empty string only.\<close>

definition ensureStartDate :: "SaveDataV2 \<Rightarrow> string \<Rightarrow> SaveDataV2" where
  "ensureStartDate save candidate =
     (if startDate save = [] then save\<lparr>startDate := candidate\<rparr>
      else if compareISODate candidate (startDate save) < 0 then save\<lparr>startDate := candidate\<rparr>
      else save)"

subsection \<open>Export and import\<close>

text \<open>
  Modelled from the spec: export serialises the current record verbatim as JSON text
  and import parses the text and hands the value to \<^verbatim>\<open>coerceSave\<close> (the handlers,
  in \<^verbatim>\<open>App.tsx\<close>, call \<^verbatim>\<open>JSON.stringify(save, null, 2)\<close> and \<^verbatim>\<open>JSON.parse\<close>,
  which are functions of the platform). On a record of finite numbers the parsed value
  is the object with the record's four properties, the \<^verbatim>\<open>taken\<close> entries in their
  order, a number for a number and \<^verbatim>\<open>null\<close> for \<^verbatim>\<open>null\<close>. (\<^verbatim>\<open>JSON.stringify\<close>
  writes \<^verbatim>\<open>NaN\<close> and the infinities as \<^verbatim>\<open>null\<close>; they are no timestamps and are
  outside the number model.)
\<close>

fun takenAtValue :: "TakenAt \<Rightarrow> jsvalue" where
  "takenAtValue None = JNull"
| "takenAtValue (Some n) = JNumber n"

definition exportedThenParsed :: "SaveDataV2 \<Rightarrow> jsvalue" where
  "exportedThenParsed r =
     JObject [(''version'', JNumber (version r)),
              (''startDate'', JString (startDate r)),
              (''taken'', JObject (map (\<lambda>e. (fst e, takenAtValue (snd e))) (taken r))),
              (''updatedAt'', JNumber (updatedAt r))]"

text \<open>
  A valid current-version record: version 2, a start date and entry keys of the shape
  \<^verbatim>\<open>YYYY-MM-DD\<close>; as the entries of one object, the keys are distinct.
\<close>

definition validSave :: "SaveDataV2 \<Rightarrow> bool" where
  "validSave r =
     (version r = 2 \<and> matchesISODate (startDate r) \<and>
      list_all (\<lambda>e. matchesISODate (fst e)) (taken r) \<and> distinct (map fst (taken r)))"

text \<open>
  The inputs \<^verbatim>\<open>coerceSave\<close> is meant to accept: an object whose \<^verbatim>\<open>startDate\<close> is a
  string of the shape \<^verbatim>\<open>YYYY-MM-DD\<close>, whose \<^verbatim>\<open>taken\<close> has type \<^verbatim>\<open>object\<close> and is not
  \<^verbatim>\<open>null\<close> (an object or an array), and whose \<^verbatim>\<open>version\<close> is 2 or 1.
\<close>

definition acceptableInput :: "jsvalue \<Rightarrow> bool" where
  "acceptableInput input =
     (case input of
        JObject kvs \<Rightarrow>
          (case map_of kvs ''startDate'' of Some (JString s) \<Rightarrow> matchesISODate s | _ \<Rightarrow> False) \<and>
          (case map_of kvs ''taken'' of Some (JObject es) \<Rightarrow> True | Some (JArray xs) \<Rightarrow> True | _ \<Rightarrow> False) \<and>
          (map_of kvs ''version'' = Some (JNumber 2) \<or> map_of kvs ''version'' = Some (JNumber 1))
      | _ \<Rightarrow> False)"

section \<open>Calendar days\<close>

text \<open>
  A \<^verbatim>\<open>Date\<close> is read by this program in local time only: it is built from local
  fields (\<^verbatim>\<open>new Date(y, m, d, 12, 0, 0, 0)\<close>), shifted by local days
  (\<^verbatim>\<open>setDate\<close>) and read back through \<^verbatim>\<open>getFullYear\<close>, \<^verbatim>\<open>getMonth\<close> and
  \<^verbatim>\<open>getDate\<close>. The model keeps the local reading: the number of the local calendar
  day, counted from 1 January 1970, and the milliseconds since local midnight. Where
  the platform turns local fields into a date it goes through the time zone of the
  device, which is a parameter of the model (\<open>TimeZone\<close> below). Dates are compared
  by their local readings, which orders them as instants wherever local time grows
  with time; the days are not bounded by the range of JavaScript time values. The day
  arithmetic is ECMAScript's: \<^verbatim>\<open>DaysInYear\<close>,
  \<^verbatim>\<open>DayFromYear\<close>, \<^verbatim>\<open>YearFromTime\<close>, \<^verbatim>\<open>MonthFromTime\<close>, \<^verbatim>\<open>DateFromTime\<close> and
  \<^verbatim>\<open>MakeDay\<close>, on day numbers.
\<close>

definition daysInYear :: "int \<Rightarrow> int" where
  "daysInYear y =
     (if y mod 4 \<noteq> 0 then 365 else if y mod 100 \<noteq> 0 then 366
      else if y mod 400 \<noteq> 0 then 365 else 366)"

definition dayFromYear :: "int \<Rightarrow> int" where
  "dayFromYear y = 365 * (y - 1970) + (y - 1969) div 4 - (y - 1901) div 100 + (y - 1601) div 400"


text \<open>A year is 365 or 366 days long, so \<open>dayFromYear\<close> grows strictly.\<close>

lemma div_succ:
  fixes a k :: int
  assumes "0 < k"
  shows "(a + 1) div k = a div k + (if (a + 1) mod k = 0 then 1 else 0)"
proof (cases "(a + 1) mod k = 0")
  case True
  have "k * ((a + 1) div k) + (a + 1) mod k = a + 1" by (rule mult_div_mod_eq)
  with True have "a = k * ((a + 1) div k - 1) + (k - 1)" by (simp add: algebra_simps)
  from int_div_pos_eq [OF this] assms have "a div k = (a + 1) div k - 1" by simp
  with True show ?thesis by simp
next
  case False
  have r: "0 \<le> (a + 1) mod k" "(a + 1) mod k < k" using assms by simp_all
  have "k * ((a + 1) div k) + (a + 1) mod k = a + 1" by (rule mult_div_mod_eq)
  then have "a = k * ((a + 1) div k) + ((a + 1) mod k - 1)" by linarith
  from int_div_pos_eq [OF this] r False have "a div k = (a + 1) div k" by simp
  with False show ?thesis by simp
qed

lemma mod_shift: "(y - c * k) mod k = y mod k" for y :: int
proof -
  have "y - c * k = y + (- c) * k" by simp
  then show ?thesis by (simp only: mod_mult_self1)
qed

lemma dayFromYear_Suc: "dayFromYear (y + 1) = dayFromYear y + daysInYear y"
proof -
  have a: "(y + 1 - 1969) div 4 = (y - 1969) div 4 + (if y mod 4 = 0 then 1 else 0)"
    using div_succ [of 4 "y - 1969"] mod_shift [of y 492 4] by simp
  have b: "(y + 1 - 1901) div 100 = (y - 1901) div 100 + (if y mod 100 = 0 then 1 else 0)"
    using div_succ [of 100 "y - 1901"] mod_shift [of y 19 100] by simp
  have c: "(y + 1 - 1601) div 400 = (y - 1601) div 400 + (if y mod 400 = 0 then 1 else 0)"
    using div_succ [of 400 "y - 1601"] mod_shift [of y 4 400] by simp
  have d: "y mod 100 = 0 \<Longrightarrow> y mod 4 = 0" by auto
  have e: "y mod 400 = 0 \<Longrightarrow> y mod 100 = 0" by auto
  show ?thesis
    unfolding dayFromYear_def a b c daysInYear_def using d e by auto
qed

lemma daysInYear_bounds: "365 \<le> daysInYear y" "daysInYear y \<le> 366"
  by (simp_all add: daysInYear_def)

lemma dayFromYear_1970: "dayFromYear 1970 = 0"
  by (simp add: dayFromYear_def)

lemma dayFromYear_upper: "0 \<le> q \<Longrightarrow> dayFromYear (1970 + q) \<le> 366 * q"
proof (induction q rule: int_ge_induct)
  case base
  then show ?case by (simp add: dayFromYear_1970)
next
  case (step i)
  have "dayFromYear (1970 + (i + 1)) = dayFromYear (1970 + i) + daysInYear (1970 + i)"
    using dayFromYear_Suc [of "1970 + i"] by (simp add: add.assoc)
  with step daysInYear_bounds(2) [of "1970 + i"] show ?case by simp
qed

lemma dayFromYear_lower: "q \<le> 0 \<Longrightarrow> dayFromYear (1970 + q) \<le> 365 * q"
proof (induction q rule: int_le_induct)
  case base
  then show ?case by (simp add: dayFromYear_1970)
next
  case (step i)
  have "dayFromYear (1970 + i) = dayFromYear (1970 + (i - 1)) + daysInYear (1970 + (i - 1))"
    using dayFromYear_Suc [of "1970 + (i - 1)"] by simp
  with step daysInYear_bounds(1) [of "1970 + (i - 1)"] show ?case by simp
qed

lemma dayFromYear_less: "y < y' \<Longrightarrow> dayFromYear y < dayFromYear y'"
proof (induction y' rule: int_gr_induct)
  case base
  then show ?case using dayFromYear_Suc [of y] daysInYear_bounds(1) [of y] by simp
next
  case (step i)
  then show ?case using dayFromYear_Suc [of i] daysInYear_bounds(1) [of i] by simp
qed

lemma dayFromYear_mono: "y \<le> y' \<Longrightarrow> dayFromYear y \<le> dayFromYear y'"
  using dayFromYear_less [of y y'] by (cases "y = y'") simp_all


text \<open>
  \<^verbatim>\<open>YearFromTime\<close>: the largest year whose first day is not after the given day. The
  search starts from a year that is not too late and walks up.
\<close>

function yearSearch :: "int \<Rightarrow> int \<Rightarrow> int" where
  "yearSearch n y = (if dayFromYear (y + 1) \<le> n then yearSearch n (y + 1) else y)"
  by pat_completeness auto

termination
proof (relation "measure (\<lambda>(n, y). nat (n - dayFromYear y))")
  show "wf (measure (\<lambda>(n, y). nat (n - dayFromYear y)))" by simp
next
  fix n y :: int
  assume "dayFromYear (y + 1) \<le> n"
  with dayFromYear_Suc [of y] daysInYear_bounds(1) [of y]
  show "((n, y + 1), (n, y)) \<in> measure (\<lambda>(n, y). nat (n - dayFromYear y))" by simp
qed

declare yearSearch.simps [simp del]

definition yearFromDay :: "int \<Rightarrow> int" where
  "yearFromDay n = yearSearch n (1970 + (if 0 \<le> n then n div 366 else n div 365))"

definition inLeapYear :: "int \<Rightarrow> int" where
  "inLeapYear y = daysInYear y - 365"


text \<open>
  \<open>monthStart y m\<close> is the day within the year \<open>y\<close> on which month \<open>m\<close> (0 to 11)
  starts; \<open>monthFromDay\<close> and \<open>dateFromDay\<close> are \<^verbatim>\<open>MonthFromTime\<close> and
  \<^verbatim>\<open>DateFromTime\<close>; \<open>makeDay\<close> is \<^verbatim>\<open>MakeDay\<close>, which carries a month outside 0 to 11
  into the year and accepts any day of the month.
\<close>

definition monthStart :: "int \<Rightarrow> int \<Rightarrow> int" where
  "monthStart y m =
     (if m = 0 then 0 else if m = 1 then 31
      else (if m = 2 then 59 else if m = 3 then 90 else if m = 4 then 120
            else if m = 5 then 151 else if m = 6 then 181 else if m = 7 then 212
            else if m = 8 then 243 else if m = 9 then 273 else if m = 10 then 304
            else 334) + inLeapYear y)"

definition monthFromDay :: "int \<Rightarrow> int" where
  "monthFromDay n =
     (let y = yearFromDay n; d = n - dayFromYear y; L = inLeapYear y in
      if d < 31 then 0 else if d < 59 + L then 1 else if d < 90 + L then 2
      else if d < 120 + L then 3 else if d < 151 + L then 4 else if d < 181 + L then 5
      else if d < 212 + L then 6 else if d < 243 + L then 7 else if d < 273 + L then 8
      else if d < 304 + L then 9 else if d < 334 + L then 10 else 11)"

definition dateFromDay :: "int \<Rightarrow> int" where
  "dateFromDay n =
     n - dayFromYear (yearFromDay n) - monthStart (yearFromDay n) (monthFromDay n) + 1"

definition makeDay :: "int \<Rightarrow> int \<Rightarrow> int \<Rightarrow> int" where
  "makeDay year month date =
     (let ym = year + month div 12; mn = month mod 12 in
      dayFromYear ym + monthStart ym mn + date - 1)"


text \<open>A \<^verbatim>\<open>Date\<close>: invalid (its time value is \<^verbatim>\<open>NaN\<close>), or a local day and time of day.\<close>

datatype Date = InvalidDate | LocalTime int int

fun getFullYear :: "Date \<Rightarrow> int option" where
  "getFullYear InvalidDate = None"
| "getFullYear (LocalTime n ms) = Some (yearFromDay n)"

fun getMonth :: "Date \<Rightarrow> int option" where
  "getMonth InvalidDate = None"
| "getMonth (LocalTime n ms) = Some (monthFromDay n)"

fun getDate :: "Date \<Rightarrow> int option" where
  "getDate InvalidDate = None"
| "getDate (LocalTime n ms) = Some (dateFromDay n)"


text \<open>
  \<^verbatim>\<open>new Date(y, m, d, 12, 0, 0, 0)\<close>. An argument is \<open>None\<close> when it is \<^verbatim>\<open>NaN\<close>,
  which makes the date invalid; a year from 0 to 99 stands for 1900 to 1999.
\<close>

fun newDateAtNoon :: "int option \<Rightarrow> int option \<Rightarrow> int option \<Rightarrow> Date" where
  "newDateAtNoon (Some y) (Some m) (Some d) =
     LocalTime (makeDay (if 0 \<le> y \<and> y \<le> 99 then 1900 + y else y) m d) 43200000"
| "newDateAtNoon y m d = InvalidDate"


text \<open>
  The time zone of the device. ECMAScript reads a time value in local time by
  \<^verbatim>\<open>LocalTime(t)\<close> and turns a local time into a time value by \<^verbatim>\<open>UTC(t)\<close>; a zone
  is given by these two functions, on milliseconds. The date that the platform makes
  of local fields is the instant \<^verbatim>\<open>UTC\<close> of the fields, read in local time again
  (\<open>inZone\<close>): the fields themselves wherever the zone has that local time, and
  another local time where the zone skipped it.
\<close>

record TimeZone =
  localOfUTC :: "int \<Rightarrow> int"
  utcOfLocal :: "int \<Rightarrow> int"

definition msPerDay :: int where
  "msPerDay = 86400000"

fun inZone :: "TimeZone \<Rightarrow> Date \<Rightarrow> Date" where
  "inZone z InvalidDate = InvalidDate"
| "inZone z (LocalTime n ms) =
     (let t = localOfUTC z (utcOfLocal z (n * msPerDay + ms)) in
      LocalTime (t div msPerDay) (t mod msPerDay))"


text \<open>
  \<^verbatim>\<open>d.setDate(n)\<close>, as the date it leaves in \<open>d\<close>: the day \<open>n\<close> of the month of
  \<open>d\<close> at the time of day of \<open>d\<close>, as local fields, made a date in the zone. And
  \<^verbatim>\<open>d >= e\<close> on dates.
\<close>

fun setDate :: "TimeZone \<Rightarrow> Date \<Rightarrow> int option \<Rightarrow> Date" where
  "setDate z (LocalTime n ms) (Some dt) =
     inZone z (LocalTime (makeDay (yearFromDay n) (monthFromDay n) dt) ms)"
| "setDate z d dt = InvalidDate"

fun dateGe :: "Date \<Rightarrow> Date \<Rightarrow> bool" where
  "dateGe (LocalTime a x) (LocalTime b y) = (b < a \<or> (a = b \<and> y \<le> x))"
| "dateGe d e = False"


text \<open>
  A zone with a fixed offset from UTC, and the property of a zone that every
  calendar day has a local noon: the date made of the fields of a noon is that noon.
\<close>

definition fixedOffset :: "int \<Rightarrow> TimeZone" where
  "fixedOffset k = \<lparr>localOfUTC = (\<lambda>t. t + k), utcOfLocal = (\<lambda>t. t - k)\<rparr>"

definition everyDayHasNoon :: "TimeZone \<Rightarrow> bool" where
  "everyDayHasNoon z =
     (\<forall>n. localOfUTC z (utcOfLocal z (n * msPerDay + 43200000)) = n * msPerDay + 43200000)"


text \<open>
  The zone of Samoa (\<^verbatim>\<open>Pacific/Apia\<close>) around its move across the date line, its
  other transitions left out. Local time was 10 hours behind UTC until the end of
  29 December 2011, which was the instant 2011-12-30T10:00:00Z (1325239200000), and
  is 14 hours ahead of UTC from then on: 30 December 2011 is no local day there. The
  local times of the skipped day lie from 1325203200000 up to 1325289600000;
  \<^verbatim>\<open>UTC(t)\<close> reads a skipped local time with the offset before the transition, as
  ECMAScript lays down.
\<close>

definition apiaZone :: TimeZone where
  "apiaZone =
     \<lparr>localOfUTC = (\<lambda>t. if t < 1325239200000 then t - 36000000 else t + 50400000),
      utcOfLocal = (\<lambda>t. if t < 1325289600000 then t + 36000000 else t - 50400000)\<rparr>"


text \<open>
  \<^verbatim>\<open>String(n)\<close> for an integer or \<^verbatim>\<open>NaN\<close>, \<^verbatim>\<open>s.padStart(2, '0')\<close> and \<^verbatim>\<open>pad2\<close>.
\<close>

fun numberToString :: "int option \<Rightarrow> string" where
  "numberToString None = ''NaN''"
| "numberToString (Some i) = (if i < 0 then CHR ''-'' # digitsOf (nat (- i)) else digitsOf (nat i))"

definition padStart2 :: "string \<Rightarrow> string" where
  "padStart2 s = replicate (2 - length s) CHR ''0'' @ s"

definition pad2 :: "int option \<Rightarrow> string" where
  "pad2 n = padStart2 (numberToString n)"


text \<open>
  \<^verbatim>\<open>Number(s)\<close>: \<^verbatim>\<open>NaN\<close> for \<^verbatim>\<open>undefined\<close> (\<open>None\<close>), and the value of a string of
  decimal digits (0 for the empty string), exactly. Every other string is taken to
  \<^verbatim>\<open>NaN\<close>;
  JavaScript also reads white space, signs, fractions, exponents and radix prefixes,
  which no field of a key of the shape \<^verbatim>\<open>YYYY-MM-DD\<close> has.
\<close>

definition decimalValue :: "string \<Rightarrow> nat" where
  "decimalValue s = foldl (\<lambda>acc c. 10 * acc + digitVal c) 0 s"

fun jsNumber :: "string option \<Rightarrow> int option" where
  "jsNumber None = None"
| "jsNumber (Some s) = (if list_all isDigit s then Some (int (decimalValue s)) else None)"


text \<open>
  \<^verbatim>\<open>key.split('-')\<close>, and the element of an array at an index (\<^verbatim>\<open>undefined\<close> past
  its end), as the destructuring \<^verbatim>\<open>[yStr, mStr, dStr] = \<dots>\<close> reads it.
\<close>

fun splitDash :: "string \<Rightarrow> string list" where
  "splitDash [] = [[]]"
| "splitDash (c # cs) =
     (if c = CHR ''-'' then [] # splitDash cs
      else (case splitDash cs of [] \<Rightarrow> [[c]] | w # ws \<Rightarrow> (c # w) # ws))"

definition element :: "string list \<Rightarrow> nat \<Rightarrow> string option" where
  "element xs i = (case drop i xs of [] \<Rightarrow> None | x # rest \<Rightarrow> Some x)"


subsection \<open>The calendar utilities of the program\<close>

definition toISODateKeyLocal :: "Date \<Rightarrow> string" where
  "toISODateKeyLocal d =
     (let y = getFullYear d; m = map_option (\<lambda>i. i + 1) (getMonth d); day = getDate d in
      numberToString y @ ''-'' @ pad2 m @ ''-'' @ pad2 day)"

definition makeLocalNoonDateFromISO :: "string \<Rightarrow> Date" where
  "makeLocalNoonDateFromISO key =
     (let parts = splitDash key;
          y = jsNumber (element parts 0);
          m = jsNumber (element parts 1);
          d = jsNumber (element parts 2) in
      newDateAtNoon y (map_option (\<lambda>i. i - 1) m) d)"

text \<open>
  The dates of the program are made in the zone of the device: \<^verbatim>\<open>new Date(\<dots>)\<close> in
  \<^verbatim>\<open>makeLocalNoonDateFromISO\<close> is \<open>inZone z\<close> of the fields, which changes nothing
  for a key that names a day of the zone, and \<^verbatim>\<open>setDate\<close> in \<^verbatim>\<open>addDaysLocalNoon\<close>
  is \<open>setDate z\<close>.
\<close>

definition addDaysLocalNoon :: "TimeZone \<Rightarrow> Date \<Rightarrow> int \<Rightarrow> Date" where
  "addDaysLocalNoon z d deltaDays = setDate z d (map_option (\<lambda>i. i + deltaDays) (getDate d))"


text \<open>Days and their civil fields determine each other.\<close>

definition daysInMonth :: "int \<Rightarrow> int \<Rightarrow> int" where
  "daysInMonth y m =
     (if m = 1 then 28 + inLeapYear y
      else if m = 3 \<or> m = 5 \<or> m = 8 \<or> m = 10 then 30 else 31)"

lemma inLeapYear_cases: "inLeapYear y = 0 \<or> inLeapYear y = 1"
  by (simp add: inLeapYear_def daysInYear_def)

lemma daysInYear_leap: "daysInYear y = 365 + inLeapYear y"
  by (simp add: inLeapYear_def)

lemma month_cases:
  fixes m :: int
  assumes "0 \<le> m" "m \<le> 11"
  obtains "m = 0" | "m = 1" | "m = 2" | "m = 3" | "m = 4" | "m = 5" | "m = 6"
    | "m = 7" | "m = 8" | "m = 9" | "m = 10" | "m = 11"
proof -
  from assms
  have "m = 0 \<or> m = 1 \<or> m = 2 \<or> m = 3 \<or> m = 4 \<or> m = 5 \<or> m = 6
      \<or> m = 7 \<or> m = 8 \<or> m = 9 \<or> m = 10 \<or> m = 11" by arith
  with that show thesis by blast
qed

lemma monthFromDay_range: "0 \<le> monthFromDay n \<and> monthFromDay n \<le> 11"
  by (simp add: monthFromDay_def Let_def)

lemma makeDay_of_day:
  "makeDay (yearFromDay n) (monthFromDay n) (dateFromDay n + k) = n + k"
proof -
  from monthFromDay_range [of n]
  have "monthFromDay n div 12 = 0" "monthFromDay n mod 12 = monthFromDay n" by simp_all
  then show ?thesis by (simp add: makeDay_def dateFromDay_def)
qed

lemma yearSearch_bounds:
  "dayFromYear y \<le> n \<Longrightarrow>
   dayFromYear (yearSearch n y) \<le> n \<and> n < dayFromYear (yearSearch n y + 1)"
proof (induction n y rule: yearSearch.induct)
  case (1 n y)
  show ?case
  proof (cases "dayFromYear (y + 1) \<le> n")
    case True
    with "1.IH" show ?thesis by (subst (1 2) yearSearch.simps) simp
  next
    case False
    with "1.prems" show ?thesis by (subst (1 2) yearSearch.simps) simp
  qed
qed

lemma yearFromDay_bounds:
  "dayFromYear (yearFromDay n) \<le> n \<and> n < dayFromYear (yearFromDay n + 1)"
proof -
  have "dayFromYear (1970 + (if 0 \<le> n then n div 366 else n div 365)) \<le> n"
  proof (cases "0 \<le> n")
    case True
    then have "0 \<le> n div 366" by simp
    from dayFromYear_upper [OF this] have "dayFromYear (1970 + n div 366) \<le> 366 * (n div 366)" .
    also have "\<dots> \<le> n"
      using mult_div_mod_eq [of 366 n] pos_mod_sign [of 366 n] by linarith
    finally show ?thesis using True by simp
  next
    case False
    then have "n div 365 \<le> 0"
      using mult_div_mod_eq [of 365 n] pos_mod_sign [of 365 n] by linarith
    from dayFromYear_lower [OF this] have "dayFromYear (1970 + n div 365) \<le> 365 * (n div 365)" .
    also have "\<dots> \<le> n"
      using mult_div_mod_eq [of 365 n] pos_mod_sign [of 365 n] by linarith
    finally show ?thesis using False by simp
  qed
  then show ?thesis unfolding yearFromDay_def by (rule yearSearch_bounds)
qed

lemma yearFromDay_unique:
  assumes "dayFromYear y \<le> n" and "n < dayFromYear (y + 1)"
  shows "yearFromDay n = y"
proof (rule ccontr)
  assume ne: "yearFromDay n \<noteq> y"
  let ?z = "yearFromDay n"
  from yearFromDay_bounds [of n] have z: "dayFromYear ?z \<le> n" "n < dayFromYear (?z + 1)" by simp_all
  show False
  proof (cases "?z < y")
    case True
    then have "dayFromYear (?z + 1) \<le> dayFromYear y" by (intro dayFromYear_mono) simp
    with z assms show False by simp
  next
    case False
    with ne have "y + 1 \<le> ?z" by simp
    then have "dayFromYear (y + 1) \<le> dayFromYear ?z" by (rule dayFromYear_mono)
    with z assms show False by simp
  qed
qed

lemma makeDay_in_year:
  assumes "0 \<le> m" "m \<le> 11" "1 \<le> d" "d \<le> daysInMonth y m"
  shows "makeDay y m d = dayFromYear y + monthStart y m + d - 1"
    and "0 \<le> monthStart y m + d - 1"
    and "monthStart y m + d - 1 < daysInYear y"
proof -
  from assms(1,2) have "m div 12 = 0" "m mod 12 = m" by simp_all
  then show "makeDay y m d = dayFromYear y + monthStart y m + d - 1"
    by (simp add: makeDay_def)
  show "0 \<le> monthStart y m + d - 1"
    using assms(3) inLeapYear_cases [of y] by (auto simp: monthStart_def)
  show "monthStart y m + d - 1 < daysInYear y"
    using assms(1,2)
  proof (cases m rule: month_cases)
  qed (use assms(4) inLeapYear_cases [of y] in \<open>auto simp: monthStart_def daysInMonth_def daysInYear_leap\<close>)
qed

lemma yearFromDay_makeDay:
  assumes "0 \<le> m" "m \<le> 11" "1 \<le> d" "d \<le> daysInMonth y m"
  shows "yearFromDay (makeDay y m d) = y"
proof (rule yearFromDay_unique)
  show "dayFromYear y \<le> makeDay y m d"
    using makeDay_in_year [OF assms] by simp
  show "makeDay y m d < dayFromYear (y + 1)"
    using makeDay_in_year [OF assms] by (simp add: dayFromYear_Suc)
qed

lemma monthFromDay_makeDay:
  assumes "0 \<le> m" "m \<le> 11" "1 \<le> d" "d \<le> daysInMonth y m"
  shows "monthFromDay (makeDay y m d) = m"
proof -
  have yr: "yearFromDay (makeDay y m d) = y" by (rule yearFromDay_makeDay [OF assms])
  have dw: "makeDay y m d - dayFromYear y = monthStart y m + d - 1"
    using makeDay_in_year(1) [OF assms] by simp
  show ?thesis
    unfolding monthFromDay_def yr dw Let_def
    using assms(1,2)
  proof (cases m rule: month_cases)
  qed (use assms(3,4) inLeapYear_cases [of y] in
      \<open>auto simp: monthStart_def daysInMonth_def\<close>)
qed

lemma dateFromDay_makeDay:
  assumes "0 \<le> m" "m \<le> 11" "1 \<le> d" "d \<le> daysInMonth y m"
  shows "dateFromDay (makeDay y m d) = d"
proof -
  have dw: "makeDay y m d - dayFromYear y = monthStart y m + d - 1"
    using makeDay_in_year(1) [OF assms] by simp
  show ?thesis
    unfolding dateFromDay_def yearFromDay_makeDay [OF assms] monthFromDay_makeDay [OF assms] dw
    by simp
qed

lemma dateFromDay_range: "1 \<le> dateFromDay n \<and> dateFromDay n \<le> daysInMonth (yearFromDay n) (monthFromDay n)"
proof -
  let ?y = "yearFromDay n"
  let ?d = "n - dayFromYear ?y"
  from yearFromDay_bounds [of n] have "0 \<le> ?d" "?d < daysInYear ?y"
    by (simp_all add: dayFromYear_Suc)
  then show ?thesis
    using inLeapYear_cases [of ?y]
    by (auto simp: dateFromDay_def monthFromDay_def monthStart_def daysInMonth_def Let_def daysInYear_leap)
qed

lemma inZone_noon:
  assumes "everyDayHasNoon z"
  shows "inZone z (LocalTime n 43200000) = LocalTime n 43200000"
proof -
  from assms have "localOfUTC z (utcOfLocal z (n * msPerDay + 43200000)) = n * msPerDay + 43200000"
    by (simp add: everyDayHasNoon_def)
  then show ?thesis by (simp add: msPerDay_def)
qed

lemma addDaysLocalNoon_noon:
  "everyDayHasNoon z \<Longrightarrow>
   addDaysLocalNoon z (LocalTime n 43200000) k = LocalTime (n + k) 43200000"
  by (simp add: addDaysLocalNoon_def makeDay_of_day inZone_noon del: inZone.simps)

lemma everyDayHasNoon_fixedOffset: "everyDayHasNoon (fixedOffset k)"
  by (simp add: everyDayHasNoon_def fixedOffset_def)


section \<open>The history range and the streaks\<close>

text \<open>
  The loop of \<^verbatim>\<open>buildHistoryKeysInclusive\<close>,
  \<^verbatim>\<open>for (let d = endD; d >= startD; d = addDaysLocalNoon(d, -1)) out.push(\<dots>)\<close>.
  Nothing in the loop bounds the number of its rounds, so the model may fail to
  return (\<open>None\<close>).
\<close>

partial_function (option) historyLoop ::
  "TimeZone \<Rightarrow> Date \<Rightarrow> Date \<Rightarrow> string list \<Rightarrow> string list option" where
  "historyLoop z startD d out =
     (if dateGe d startD
      then historyLoop z startD (addDaysLocalNoon z d (- 1)) (out @ [toISODateKeyLocal d])
      else Some out)"

declare historyLoop.simps [code]

definition buildHistoryKeysInclusive :: "TimeZone \<Rightarrow> string \<Rightarrow> string \<Rightarrow> string list option" where
  "buildHistoryKeysInclusive z start end =
     (let startD = inZone z (makeLocalNoonDateFromISO start);
          endD = inZone z (makeLocalNoonDateFromISO end) in
      historyLoop z startD endD [])"


text \<open>
  \<^verbatim>\<open>computeBestStreak\<close>: the five variables of the scan, the body of its loop, the
  loop over the keys in ascending order with the record it returns (\<open>bestOfKeys\<close>),
  and the function, which returns if \<^verbatim>\<open>buildHistoryKeysInclusive\<close> does.
\<close>

record ScanState =
  bestLen :: int
  bestStart :: "string option"
  bestEnd :: "string option"
  runLen :: int
  runStart :: "string option"

definition bestStep :: "SaveDataV2 \<Rightarrow> ScanState \<Rightarrow> string \<Rightarrow> ScanState" where
  "bestStep save st k =
     (if isTaken save k then
        (let st1 = (if runLen st = 0 then st\<lparr>runStart := Some k\<rparr> else st);
             st2 = st1\<lparr>runLen := runLen st1 + 1\<rparr> in
         if runLen st2 > bestLen st2
         then st2\<lparr>bestLen := runLen st2, bestStart := runStart st2, bestEnd := Some k\<rparr>
         else st2)
      else st\<lparr>runLen := 0, runStart := None\<rparr>)"

definition bestOfKeys :: "SaveDataV2 \<Rightarrow> string list \<Rightarrow> StreakInfo" where
  "bestOfKeys save keysAsc =
     (let st = foldl (bestStep save)
                 \<lparr>bestLen = 0, bestStart = None, bestEnd = None, runLen = 0, runStart = None\<rparr>
                 keysAsc in
      \<lparr>length_si = bestLen st, start_si = bestStart st, end_si = bestEnd st\<rparr>)"

definition computeBestStreak :: "TimeZone \<Rightarrow> SaveDataV2 \<Rightarrow> string \<Rightarrow> string \<Rightarrow> StreakInfo option" where
  "computeBestStreak z save start end =
     map_option (\<lambda>keysDesc. bestOfKeys save (rev keysDesc)) (buildHistoryKeysInclusive z start end)"


text \<open>
  \<^verbatim>\<open>computeCurrentStreak\<close>. Its \<^verbatim>\<open>while (true)\<close> loop has no bound of its own, so the
  model may fail to return (\<open>None\<close>); it returns the count and the cursor the loop
  leaves.
\<close>

partial_function (option) streakWalk ::
  "TimeZone \<Rightarrow> SaveDataV2 \<Rightarrow> Date \<Rightarrow> int \<Rightarrow> (int \<times> Date) option" where
  "streakWalk z save cursor len =
     (let key = toISODateKeyLocal cursor in
      if \<not> isTaken save key then Some (len, cursor)
      else streakWalk z save (addDaysLocalNoon z cursor (- 1)) (len + 1))"

declare streakWalk.simps [code]

definition computeCurrentStreak :: "TimeZone \<Rightarrow> SaveDataV2 \<Rightarrow> string \<Rightarrow> StreakInfo option" where
  "computeCurrentStreak z save today =
     (let todayTaken = isTaken save today;
          startCursor = (if todayTaken then inZone z (makeLocalNoonDateFromISO today)
                         else addDaysLocalNoon z (inZone z (makeLocalNoonDateFromISO today)) (- 1));
          startKey = toISODateKeyLocal startCursor in
      if \<not> isTaken save startKey then Some \<lparr>length_si = 0, start_si = None, end_si = None\<rparr>
      else map_option
        (\<lambda>(len, cursor).
           \<lparr>length_si = len,
            start_si = Some (toISODateKeyLocal (addDaysLocalNoon z cursor 1)),
            end_si = Some (toISODateKeyLocal startCursor)\<rparr>)
        (streakWalk z save startCursor 0))"


section \<open>Notions of the specification\<close>

text \<open>
  A day key in the sense of the spec: a string in the canonical form \<^verbatim>\<open>YYYY-MM-DD\<close>
  that names a calendar day, with a year of four digits and no leading zero. Lemma
  \<open>isCalendarDateKey_iff_produced\<close> below shows that these are exactly the strings
  of the canonical form that \<^verbatim>\<open>toISODateKeyLocal\<close> produces.
\<close>

definition isCalendarDateKey :: "string \<Rightarrow> bool" where
  "isCalendarDateKey k =
     (matchesISODate k \<and>
      (let y = int (decimalValue (take 4 k));
           m = int (decimalValue (take 2 (drop 5 k)));
           d = int (decimalValue (drop 8 k)) in
       1000 \<le> y \<and> 1 \<le> m \<and> m \<le> 12 \<and> 1 \<le> d \<and> d \<le> daysInMonth y (m - 1)))"


text \<open>
  Modelled from the spec: \<^verbatim>\<open>dayCount(s, e)\<close> appears in the spec's testable
  properties and is defined neither there nor in the sources; it is taken to be the
  number of calendar days from the day of \<open>s\<close> to the day of \<open>e\<close>.
\<close>

definition dayCount :: "string \<Rightarrow> string \<Rightarrow> int" where
  "dayCount start end =
     (case makeLocalNoonDateFromISO start of
        InvalidDate \<Rightarrow> 0
      | LocalTime a x \<Rightarrow>
          (case makeLocalNoonDateFromISO end of InvalidDate \<Rightarrow> 0 | LocalTime b y \<Rightarrow> b - a))"


text \<open>
  The key of the calendar day \<open>i\<close> days before a date, and the anchor of the current
  streak: today if today is taken, else the day before.
\<close>

fun keyBefore :: "Date \<Rightarrow> nat \<Rightarrow> string" where
  "keyBefore InvalidDate i = toISODateKeyLocal InvalidDate"
| "keyBefore (LocalTime n ms) i = toISODateKeyLocal (LocalTime (n - int i) ms)"

definition anchorDate :: "SaveDataV2 \<Rightarrow> string \<Rightarrow> Date" where
  "anchorDate save today =
     (case makeLocalNoonDateFromISO today of
        InvalidDate \<Rightarrow> InvalidDate
      | LocalTime n ms \<Rightarrow> LocalTime (if isTaken save today then n else n - 1) ms)"


text \<open>
  The shape of a \<^verbatim>\<open>StreakInfo\<close>: a length that is not negative, \<^verbatim>\<open>start\<close> and
  \<^verbatim>\<open>end\<close> both present or both absent, and absent exactly when the length is 0.
\<close>

definition streakInfoShape :: "StreakInfo \<Rightarrow> bool" where
  "streakInfoShape r =
     (0 \<le> length_si r \<and> (start_si r = None) = (end_si r = None)
      \<and> (start_si r = None) = (length_si r = 0))"


text \<open>
  A run of taken days in a list of keys: \<open>n\<close> keys from position \<open>i\<close> on, all
  taken, with \<open>n\<close> at least 1.
\<close>

definition takenRun :: "SaveDataV2 \<Rightarrow> string list \<Rightarrow> nat \<Rightarrow> nat \<Rightarrow> bool" where
  "takenRun save ks i n = (0 < n \<and> i + n \<le> length ks \<and> (\<forall>j<n. isTaken save (ks ! (i + j))))"


text \<open>The records of the spec's scenarios.\<close>

definition juneRecord :: SaveDataV2 where
  "juneRecord =
     \<lparr>version = 2, startDate = ''2024-06-01'',
      taken = [(''2024-06-01'', Some 1717236000000), (''2024-06-02'', Some 1717322400000),
               (''2024-06-03'', None)],
      updatedAt = 1717408800000\<rparr>"

definition mayRecord :: SaveDataV2 where
  "mayRecord =
     \<lparr>version = 2, startDate = ''2024-05-01'',
      taken = [(''2024-05-01'', None), (''2024-05-03'', None)], updatedAt = 0\<rparr>"


text \<open>
  Two records kept in Samoa around the change of the date line: one started on
  29 December 2011 with the last day of the year taken, one with New Year's Day
  taken as well.
\<close>

definition decemberRecord :: SaveDataV2 where
  "decemberRecord =
     \<lparr>version = 2, startDate = ''2011-12-29'',
      taken = [(''2011-12-31'', None)], updatedAt = 0\<rparr>"

definition newYearRecord :: SaveDataV2 where
  "newYearRecord =
     \<lparr>version = 2, startDate = ''2011-12-28'',
      taken = [(''2011-12-31'', None), (''2012-01-01'', None)], updatedAt = 0\<rparr>"

section \<open>Properties of strings and objects\<close>

lemma strLess_irrefl: "\<not> strLess a a"
  by (induction a) simp_all

lemma setProp_keys: "set (map fst (setProp tk k v)) = insert k (set (map fst tk))"
  unfolding set_map by (induction tk) (force split: if_splits)+

lemma setProp_fresh: "k \<notin> set (map fst tk) \<Longrightarrow> setProp tk k v = tk @ [(k, v)]"
  by (induction tk) auto

lemma setProp_None_set:
  "\<forall>e\<in>set tk. snd e = None \<Longrightarrow> set (setProp tk k None) = insert (k, None) (set tk)"
  by (induction tk) (force split: if_splits)+

lemma setProp_distinct: "distinct (map fst tk) \<Longrightarrow> distinct (map fst (setProp tk k v))"
proof (induction tk)
  case Nil
  then show ?case by simp
next
  case (Cons a tk)
  obtain k' v' where a: "a = (k', v')" by (cases a)
  from Cons have d: "distinct (map fst (setProp tk k v))" by simp
  show ?case
  proof (cases "k' = k")
    case True
    with Cons.prems a show ?thesis by simp
  next
    case False
    from Cons.prems a have "k' \<notin> set (map fst tk)" by simp
    with False have "k' \<notin> set (map fst (setProp tk k v))"
      unfolding setProp_keys by simp
    with False d a show ?thesis by simp
  qed
qed

section \<open>Properties of coerceSave\<close>

lemma isISODateKey_cases: "isISODateKey v \<Longrightarrow> \<exists>s. v = JString s \<and> matchesISODate s"
  by (cases v) simp_all

text \<open>
  Claim C3. \<^verbatim>\<open>coerceSave\<close> is total: on every value, whatever its shape, it returns
  and does not throw; and it returns \<^verbatim>\<open>null\<close> exactly on the inputs that are not an
  object with a \<^verbatim>\<open>startDate\<close> of the shape \<^verbatim>\<open>YYYY-MM-DD\<close>, an object-typed
  \<^verbatim>\<open>taken\<close> and a version of 2 or 1. Otherwise it returns a whole record.
\<close>

theorem coerceSave_total:
  "\<exists>r. coerceSave now input = Inr r \<and> (r = None) = (\<not> acceptableInput input)"
proof (cases input)
  case (JObject kvs)
  show ?thesis
  proof (cases "map_of kvs ''taken''")
    case None
    with JObject show ?thesis
      by (auto simp: coerceSave_def throwing_def acceptableInput_def
          split: option.splits jsvalue.splits)
  next
    case (Some t)
    with JObject show ?thesis
      by (cases t)
        (auto simp: coerceSave_def throwing_def acceptableInput_def
          dest: isISODateKey_cases split: option.splits jsvalue.splits)
  qed
qed (simp_all add: coerceSave_def throwing_def acceptableInput_def)

theorem coerceSave_total_witness:
  "coerceSave 0 (JObject []) = Inr None \<and> coerceSave 0 JNull = Inr None
   \<and> coerceSave 0 (JArray [JNumber 1, JString ''x'']) = Inr None
   \<and> coerceSave 0 (JObject [(''startDate'', JString ''2024-01-01''), (''taken'', JNull),
        (''version'', JNumber 2)]) = Inr None
   \<and> coerceSave 0 (JObject [(''startDate'', JArray [JObject [(''taken'', JNull)]]),
        (''taken'', JObject [(''version'', JObject [])])]) = Inr None"
  using coerceSave_total [of 0 "JObject []"] coerceSave_total [of 0 JNull]
    coerceSave_total [of 0 "JArray [JNumber 1, JString ''x'']"]
    coerceSave_total [of 0 "JObject [(''startDate'', JString ''2024-01-01''), (''taken'', JNull),
        (''version'', JNumber 2)]"]
    coerceSave_total [of 0 "JObject [(''startDate'', JArray [JObject [(''taken'', JNull)]]),
        (''taken'', JObject [(''version'', JObject [])])]"]
  by (auto simp: acceptableInput_def)

lemma coerceTakenV1_set:
  "\<forall>e\<in>set tk. snd e = None \<Longrightarrow>
   set (coerceTakenV1 entries tk) =
     set tk \<union> {(k, None) |k. matchesISODate k \<and> (k, JBool True) \<in> set entries}"
proof (induction entries tk rule: coerceTakenV1.induct)
  case (1 tk)
  then show ?case by simp
next
  case (2 k v rest tk)
  show ?case
  proof (cases "matchesISODate k \<and> v = JBool True")
    case True
    have "\<forall>e\<in>set (setProp tk k None). snd e = None"
      using "2.prems" by (auto simp: setProp_None_set)
    with True "2.IH"(2) "2.prems" show ?thesis
      by (auto simp: setProp_None_set)
  next
    case False
    with "2.IH"(1,3) "2.prems" show ?thesis by auto
  qed
qed

lemma coerceTakenV1_distinct:
  "distinct (map fst tk) \<Longrightarrow> distinct (map fst (coerceTakenV1 entries tk))"
  by (induction entries tk rule: coerceTakenV1.induct) (auto simp: setProp_distinct)

text \<open>
  Claim C4. When \<^verbatim>\<open>coerceSave\<close> accepts an input of version 1, the record's
  \<^verbatim>\<open>taken\<close> holds exactly one entry, with the unknown-time marker \<^verbatim>\<open>null\<close>, for each
  key of the shape \<^verbatim>\<open>YYYY-MM-DD\<close> whose input value is literally \<^verbatim>\<open>true\<close>; entries
  with \<^verbatim>\<open>false\<close> or any other value, and entries under any other key, are dropped.
  The record carries version 2.
\<close>

theorem coerceSave_migrates_v1:
  assumes "coerceSave now input = Inr (Some r)"
    and "getProp input ''version'' = Inr (JNumber 1)"
    and "getProp input ''taken'' = Inr takenRaw"
    and "objectEntries takenRaw = Inr entries"
  shows "set (taken r) = {(k, None) |k. matchesISODate k \<and> (k, JBool True) \<in> set entries}
         \<and> distinct (map fst (taken r)) \<and> version r = 2"
proof -
  from assms have "taken r = coerceTakenV1 entries [] \<and> version r = 2"
    by (auto simp: coerceSave_def throwing_def split: if_splits sum.splits)
  then show ?thesis
    using coerceTakenV1_set [of "[]" entries] coerceTakenV1_distinct [of "[]" entries] by simp
qed

theorem coerceSave_migrates_v1_witness:
  "coerceSave 0 (JObject [(''version'', JNumber 1), (''startDate'', JString ''2024-01-01''),
      (''taken'', JObject [(''2024-01-01'', JBool True), (''2024-01-02'', JBool False)])])
    = Inr (Some \<lparr>version = 2, startDate = ''2024-01-01'', taken = [(''2024-01-01'', None)], updatedAt = 0\<rparr>)
   \<and> set (taken \<lparr>version = 2, startDate = ''2024-01-01'', taken = [(''2024-01-01'', None)], updatedAt = 0\<rparr>)
      = {(k, None) |k. matchesISODate k \<and>
           (k, JBool True) \<in> set [(''2024-01-01'', JBool True), (''2024-01-02'', JBool False)]}"
proof -
  let ?input = "JObject [(''version'', JNumber 1), (''startDate'', JString ''2024-01-01''),
      (''taken'', JObject [(''2024-01-01'', JBool True), (''2024-01-02'', JBool False)])]"
  let ?r = "\<lparr>version = 2, startDate = ''2024-01-01'', taken = [(''2024-01-01'', None)], updatedAt = 0\<rparr>"
  have a: "coerceSave 0 ?input = Inr (Some ?r)"
    by (simp add: coerceSave_def throwing_def isDigit_def)
  have b: "getProp ?input ''version'' = Inr (JNumber 1)" by simp
  have c: "getProp ?input ''taken'' = Inr (JObject [(''2024-01-01'', JBool True), (''2024-01-02'', JBool False)])"
    by simp
  have d: "objectEntries (JObject [(''2024-01-01'', JBool True), (''2024-01-02'', JBool False)])
     = Inr [(''2024-01-01'', JBool True), (''2024-01-02'', JBool False)]" by simp
  from coerceSave_migrates_v1 [OF a b c d] a show ?thesis by blast
qed

lemma coerceTakenV2_verbatim:
  "list_all (\<lambda>e. matchesISODate (fst e)) es \<Longrightarrow> distinct (map fst (tk @ es)) \<Longrightarrow>
   coerceTakenV2 (map (\<lambda>e. (fst e, takenAtValue (snd e))) es) tk = tk @ es"
proof (induction es arbitrary: tk)
  case Nil
  then show ?case by simp
next
  case (Cons e es)
  obtain k v where e: "e = (k, v)" by (cases e)
  from Cons.prems e have fresh: "k \<notin> set (map fst tk)" by auto
  from Cons.prems e have iso: "matchesISODate k"
    and rest: "list_all (\<lambda>e. matchesISODate (fst e)) es"
    by simp_all
  from Cons.prems e have d: "distinct (map fst ((tk @ [(k, v)]) @ es))" by auto
  from Cons.IH [OF rest d]
  have IH: "coerceTakenV2 (map (\<lambda>e. (fst e, takenAtValue (snd e))) es) (tk @ [(k, v)]) = tk @ (k, v) # es"
    by simp
  show ?case
    using e iso IH fresh by (cases v) (simp_all add: setProp_fresh)
qed

text \<open>
  Claim C8. Export then import gives the record back: for every valid current-version
  record (version 2, a start date and entry keys of the shape \<^verbatim>\<open>YYYY-MM-DD\<close>, each
  entry a number or \<^verbatim>\<open>null\<close>, a numeric \<^verbatim>\<open>updatedAt\<close>), \<^verbatim>\<open>coerceSave\<close> applied to the
  serialised and parsed record returns that record, field by field and entry by entry,
  and never falls back to the current time.
\<close>

theorem coerceSave_roundtrip:
  assumes "validSave r"
  shows "coerceSave now (exportedThenParsed r) = Inr (Some r)"
proof -
  from assms
  have t: "coerceTakenV2 (map (\<lambda>e. (fst e, takenAtValue (snd e))) (taken r)) [] = taken r"
    using coerceTakenV2_verbatim [of "taken r" "[]"] by (simp add: validSave_def)
  from assms have "version r = 2" "matchesISODate (startDate r)"
    by (simp_all add: validSave_def)
  with t show ?thesis
    by (simp add: coerceSave_def throwing_def exportedThenParsed_def)
qed

theorem coerceSave_roundtrip_witness:
  "validSave \<lparr>version = 2, startDate = ''2024-06-01'',
      taken = [(''2024-06-01'', Some 1717236000000), (''2024-06-02'', None)], updatedAt = 1717322400000\<rparr>
   \<and> coerceSave 0 (exportedThenParsed \<lparr>version = 2, startDate = ''2024-06-01'',
      taken = [(''2024-06-01'', Some 1717236000000), (''2024-06-02'', None)], updatedAt = 1717322400000\<rparr>)
     = Inr (Some \<lparr>version = 2, startDate = ''2024-06-01'',
      taken = [(''2024-06-01'', Some 1717236000000), (''2024-06-02'', None)], updatedAt = 1717322400000\<rparr>)"
proof -
  let ?r = "\<lparr>version = 2, startDate = ''2024-06-01'',
      taken = [(''2024-06-01'', Some 1717236000000), (''2024-06-02'', None)], updatedAt = 1717322400000\<rparr>"
  have v: "validSave ?r" by (simp add: validSave_def isDigit_def)
  from v coerceSave_roundtrip [OF v, of 0] show ?thesis by simp
qed

section \<open>Properties of ensureStartDate\<close>

text \<open>
  Claim C6. For a record with a start date and any candidate key, the start date of
  \<^verbatim>\<open>ensureStartDate\<close>'s result is the earlier of the two by \<^verbatim>\<open>compareISODate\<close>, so it
  is later than neither; applying the function a second time with the same candidate
  changes nothing; and when the candidate is not earlier, the result is the record
  itself, otherwise the record with only its start date replaced.
\<close>

theorem ensureStartDate_earliest:
  assumes "startDate save \<noteq> []"
  shows "startDate (ensureStartDate save candidate) =
           (if compareISODate candidate (startDate save) < 0 then candidate else startDate save)
         \<and> compareISODate (startDate (ensureStartDate save candidate)) (startDate save) \<le> 0
         \<and> compareISODate (startDate (ensureStartDate save candidate)) candidate \<le> 0
         \<and> ensureStartDate (ensureStartDate save candidate) candidate = ensureStartDate save candidate
         \<and> (if compareISODate candidate (startDate save) < 0
             then ensureStartDate save candidate = save\<lparr>startDate := candidate\<rparr>
             else ensureStartDate save candidate = save)"
  using assms
  by (auto simp: ensureStartDate_def compareISODate_def strLess_irrefl split: if_splits)

theorem ensureStartDate_earliest_witness:
  "startDate (ensureStartDate \<lparr>version = 2, startDate = ''2024-06-10'', taken = [], updatedAt = 0\<rparr> ''2024-06-03'')
     = ''2024-06-03''
   \<and> ensureStartDate \<lparr>version = 2, startDate = ''2024-06-10'', taken = [], updatedAt = 0\<rparr> ''2024-06-12''
     = \<lparr>version = 2, startDate = ''2024-06-10'', taken = [], updatedAt = 0\<rparr>"
proof -
  let ?s = "\<lparr>version = 2, startDate = ''2024-06-10'', taken = [], updatedAt = 0\<rparr>"
  have ne: "startDate ?s \<noteq> []" by simp
  have a: "compareISODate ''2024-06-03'' (startDate ?s) < 0" by (simp add: compareISODate_def)
  have b: "\<not> compareISODate ''2024-06-12'' (startDate ?s) < 0" by (simp add: compareISODate_def)
  from ensureStartDate_earliest [OF ne, of "''2024-06-03''"]
    ensureStartDate_earliest [OF ne, of "''2024-06-12''"] a b
  show ?thesis by simp
qed


section \<open>Properties of digits and key strings\<close>

lemma digitChar_code: "d < 10 \<Longrightarrow> (of_char (digitChar d) :: nat) = 48 + d"
  by (simp add: digitChar_def)

lemma isDigit_digitChar: "d < 10 \<Longrightarrow> isDigit (digitChar d)"
  by (simp add: isDigit_def digitChar_code)

lemma digitVal_digitChar: "d < 10 \<Longrightarrow> digitVal (digitChar d) = d"
  by (simp add: digitVal_def digitChar_code)

lemma digitChar_digitVal: "isDigit c \<Longrightarrow> digitChar (digitVal c) = c"
  by (simp add: isDigit_def digitVal_def digitChar_def)

lemma digitVal_less: "isDigit c \<Longrightarrow> digitVal c < 10"
  by (auto simp: isDigit_def digitVal_def)

lemma isDigit_not_dash: "isDigit c \<Longrightarrow> c \<noteq> CHR ''-''"
  by (auto simp: isDigit_def)

lemma digitChar_less: "a < 10 \<Longrightarrow> b < 10 \<Longrightarrow>
  ((of_char (digitChar a) :: nat) < of_char (digitChar b)) = (a < b)"
  by (simp add: digitChar_code)

lemma digitChar_inj: "a < 10 \<Longrightarrow> b < 10 \<Longrightarrow> digitChar a = digitChar b \<Longrightarrow> a = b"
  using digitVal_digitChar by metis

lemma digitChar_0: "digitChar 0 = CHR ''0''"
proof -
  have "(of_char (digitChar 0) :: nat) = of_char CHR ''0''" by (simp add: digitChar_def)
  then show ?thesis by (simp only: of_char_eq_iff)
qed

lemma lex_div_mod_10:
  "(n div 10 < n' div 10 \<or> n div 10 = n' div 10 \<and> n mod 10 < n' mod 10) = (n < n')" for n n' :: nat
proof -
  define q r q' r' where "q = n div 10" and "r = n mod 10" and "q' = n' div 10" and "r' = n' mod 10"
  have "n = 10 * q + r" "n' = 10 * q' + r'" "r < 10" "r' < 10"
    by (simp_all add: q_def r_def q'_def r'_def)
  then have "(q < q' \<or> q = q' \<and> r < r') = (n < n')" by arith
  then show ?thesis by (simp only: q_def r_def q'_def r'_def)
qed


text \<open>
  \<open>fixedDigits w n\<close> writes \<open>n\<close> with exactly \<open>w\<close> digits. On such strings the
  order of the strings is the order of the numbers, which is why comparing keys as
  strings compares days.
\<close>

fun fixedDigits :: "nat \<Rightarrow> nat \<Rightarrow> string" where
  "fixedDigits 0 n = []"
| "fixedDigits (Suc w) n = fixedDigits w (n div 10) @ [digitChar (n mod 10)]"

lemma length_fixedDigits: "length (fixedDigits w n) = w"
  by (induction w arbitrary: n) simp_all

lemma isDigit_fixedDigits: "list_all isDigit (fixedDigits w n)"
  by (induction w arbitrary: n) (simp_all add: isDigit_digitChar)

lemma fixedDigits_2: "fixedDigits 2 n = [digitChar (n div 10 mod 10), digitChar (n mod 10)]"
proof -
  have e: "(2::nat) = Suc (Suc 0)" by simp
  show ?thesis by (subst e) simp
qed

lemma fixedDigits_4:
  "fixedDigits 4 n = [digitChar (n div 1000 mod 10), digitChar (n div 100 mod 10),
     digitChar (n div 10 mod 10), digitChar (n mod 10)]"
proof -
  have e: "(4::nat) = Suc (Suc (Suc (Suc 0)))" by simp
  show ?thesis by (subst e) (simp add: div_mult2_eq [symmetric])
qed

lemma strLess_append:
  "length a = length b \<Longrightarrow> strLess (a @ x) (b @ y) = (strLess a b \<or> a = b \<and> strLess x y)"
proof (induction a b rule: list_induct2)
  case Nil
  then show ?case by simp
next
  case (Cons c cs e es)
  then show ?case by (auto simp: strLess_irrefl)
qed

lemma strLess_fixedDigits:
  "n < 10 ^ w \<Longrightarrow> n' < 10 ^ w \<Longrightarrow> strLess (fixedDigits w n) (fixedDigits w n') = (n < n')"
proof (induction w arbitrary: n n')
  case 0
  then show ?case by simp
next
  case (Suc w)
  from Suc.prems have a: "n div 10 < 10 ^ w" "n' div 10 < 10 ^ w" by (simp_all add: less_mult_imp_div_less mult.commute)
  have m: "n mod 10 < 10" "n' mod 10 < 10" by simp_all
  have inj: "fixedDigits w (n div 10) = fixedDigits w (n' div 10) \<Longrightarrow> n div 10 = n' div 10"
    using Suc.IH [OF a] Suc.IH [OF a(2) a(1)] by (metis strLess_irrefl nat_neq_iff)
  have "strLess (fixedDigits (Suc w) n) (fixedDigits (Suc w) n') =
        (n div 10 < n' div 10 \<or> fixedDigits w (n div 10) = fixedDigits w (n' div 10) \<and> n mod 10 < n' mod 10)"
    by (simp add: strLess_append length_fixedDigits Suc.IH [OF a] digitChar_less [OF m])
  also have "\<dots> = (n div 10 < n' div 10 \<or> n div 10 = n' div 10 \<and> n mod 10 < n' mod 10)"
    using inj by auto
  also have "\<dots> = (n < n')" by (rule lex_div_mod_10)
  finally show ?case .
qed

lemma fixedDigits_inj:
  assumes "n < 10 ^ w" "n' < 10 ^ w" "fixedDigits w n = fixedDigits w n'"
  shows "n = n'"
  using strLess_fixedDigits [OF assms(1,2)] strLess_fixedDigits [OF assms(2,1)] assms(3)
  by (metis strLess_irrefl nat_neq_iff)

lemma decimalValue_snoc: "decimalValue (s @ [c]) = 10 * decimalValue s + digitVal c"
  by (simp add: decimalValue_def)

lemma decimalValue_fixedDigits: "n < 10 ^ w \<Longrightarrow> decimalValue (fixedDigits w n) = n"
proof (induction w arbitrary: n)
  case 0
  then show ?case by (simp add: decimalValue_def)
next
  case (Suc w)
  from Suc.prems have "n div 10 < 10 ^ w" by (simp add: less_mult_imp_div_less mult.commute)
  from Suc.IH [OF this] show ?case
    by (simp add: decimalValue_snoc digitVal_digitChar)
qed

lemma decimalValue_bound: "list_all isDigit s \<Longrightarrow> decimalValue s < 10 ^ length s"
proof (induction s rule: rev_induct)
  case Nil
  then show ?case by (simp add: decimalValue_def)
next
  case (snoc c s)
  then have "decimalValue s < 10 ^ length s" "digitVal c < 10"
    by (simp_all add: digitVal_less)
  then show ?case by (simp add: decimalValue_snoc)
qed

lemma fixedDigits_decimalValue:
  "list_all isDigit s \<Longrightarrow> fixedDigits (length s) (decimalValue s) = s"
proof (induction s rule: rev_induct)
  case Nil
  then show ?case by simp
next
  case (snoc c s)
  then have d: "digitVal c < 10" and c: "isDigit c" and s: "fixedDigits (length s) (decimalValue s) = s"
    by (simp_all add: digitVal_less)
  from d have "(10 * decimalValue s + digitVal c) div 10 = decimalValue s"
    "(10 * decimalValue s + digitVal c) mod 10 = digitVal c" by simp_all
  with s c show ?case by (simp add: decimalValue_snoc digitChar_digitVal)
qed

lemma digitsOf_small: "n < 10 \<Longrightarrow> digitsOf n = [digitChar n]"
  by (subst digitsOf.simps) simp

lemma digitsOf_fixedDigits:
  "10 ^ w \<le> n \<Longrightarrow> n < 10 ^ Suc w \<Longrightarrow> digitsOf n = fixedDigits (Suc w) n"
proof (induction w arbitrary: n)
  case 0
  then show ?case by (subst digitsOf.simps) simp
next
  case (Suc w)
  from Suc.prems have a: "10 ^ w \<le> n div 10" "n div 10 < 10 ^ Suc w" by (simp_all add: less_mult_imp_div_less mult.commute)
  have p: "(1::nat) \<le> 10 ^ w" by simp
  from Suc.prems have "10 * (10::nat) ^ w \<le> n" by simp
  with p have "\<not> n < 10" by linarith
  with Suc.IH [OF a] show ?case by (subst digitsOf.simps) simp
qed

lemma decimalValue_digitsOf: "decimalValue (digitsOf n) = n"
proof (induction n rule: digitsOf.induct)
  case (1 n)
  show ?case
  proof (cases "n < 10")
    case True
    then show ?thesis
      by (subst digitsOf.simps) (simp add: decimalValue_def digitVal_digitChar)
  next
    case False
    with 1 show ?thesis
      by (subst digitsOf.simps) (simp add: decimalValue_snoc digitVal_digitChar)
  qed
qed

lemma digitsOf_digits: "digitsOf n \<noteq> [] \<and> list_all isDigit (digitsOf n)"
proof (induction n rule: digitsOf.induct)
  case (1 n)
  show ?case
  proof (cases "n < 10")
    case True
    then show ?thesis by (subst (1 2) digitsOf.simps) (simp add: isDigit_digitChar)
  next
    case False
    with 1 show ?thesis by (subst (1 2) digitsOf.simps) (simp add: isDigit_digitChar)
  qed
qed

lemma digitsOf_no_sign: "digitsOf n \<noteq> CHR ''-'' # s"
proof
  assume e: "digitsOf n = CHR ''-'' # s"
  from digitsOf_digits [of n] have "isDigit (hd (digitsOf n))"
    by (cases "digitsOf n") simp_all
  with e show False by (simp add: isDigit_def)
qed





lemma pad2_fixedDigits: "0 \<le> v \<Longrightarrow> v < 100 \<Longrightarrow> pad2 (Some v) = fixedDigits 2 (nat v)"
proof (cases "v < 10")
  case True
  assume "0 \<le> v"
  with True show ?thesis
    by (simp add: pad2_def padStart2_def digitsOf_small numeral_2_eq_2 digitChar_0)
next
  case False
  assume "v < 100"
  with False have "10 ^ 1 \<le> nat v" "nat v < 10 ^ Suc 1" by simp_all
  from digitsOf_fixedDigits [OF this] False show ?thesis
    by (simp add: pad2_def padStart2_def length_fixedDigits numeral_2_eq_2)
qed

lemma numberToString_year:
  "1000 \<le> y \<Longrightarrow> y \<le> 9999 \<Longrightarrow> numberToString (Some y) = fixedDigits 4 (nat y)"
proof -
  assume y: "1000 \<le> y" "y \<le> 9999"
  then have "digitsOf (nat y) = fixedDigits (Suc 3) (nat y)"
    by (intro digitsOf_fixedDigits) simp_all
  moreover have "Suc 3 = 4" by simp
  ultimately show ?thesis using y by simp
qed

lemma numberToString_inj:
  assumes "numberToString (Some a) = numberToString (Some b)"
  shows "a = b"
proof (cases "a < 0"; cases "b < 0")
  assume "a < 0" "b < 0"
  with assms have "digitsOf (nat (- a)) = digitsOf (nat (- b))" by simp
  then have "decimalValue (digitsOf (nat (- a))) = decimalValue (digitsOf (nat (- b)))" by simp
  with \<open>a < 0\<close> \<open>b < 0\<close> show ?thesis by (simp add: decimalValue_digitsOf)
next
  assume "a < 0" "\<not> b < 0"
  with assms have "digitsOf (nat b) = CHR ''-'' # digitsOf (nat (- a))" by simp
  with digitsOf_no_sign show ?thesis by blast
next
  assume "\<not> a < 0" "b < 0"
  with assms have "digitsOf (nat a) = CHR ''-'' # digitsOf (nat (- b))" by simp
  with digitsOf_no_sign show ?thesis by blast
next
  assume "\<not> a < 0" "\<not> b < 0"
  with assms have "digitsOf (nat a) = digitsOf (nat b)" by simp
  then have "decimalValue (digitsOf (nat a)) = decimalValue (digitsOf (nat b))" by simp
  with \<open>\<not> a < 0\<close> \<open>\<not> b < 0\<close> show ?thesis by (simp add: decimalValue_digitsOf)
qed


text \<open>A key of the canonical form, from the numbers of its three fields.\<close>

definition keyOfFields :: "nat \<Rightarrow> nat \<Rightarrow> nat \<Rightarrow> string" where
  "keyOfFields y m d = fixedDigits 4 y @ CHR ''-'' # fixedDigits 2 m @ CHR ''-'' # fixedDigits 2 d"

lemma matchesISODate_fields:
  assumes "matchesISODate k"
  shows "k = keyOfFields (decimalValue (take 4 k)) (decimalValue (take 2 (drop 5 k))) (decimalValue (drop 8 k))"
    and "decimalValue (take 4 k) < 10000"
    and "decimalValue (take 2 (drop 5 k)) < 100"
    and "decimalValue (drop 8 k) < 100"
proof -
  from assms obtain y1 y2 y3 y4 m1 m2 d1 d2 where
    k: "k = [y1, y2, y3, y4, CHR ''-'', m1, m2, CHR ''-'', d1, d2]"
    and y: "list_all isDigit [y1, y2, y3, y4]"
    and m: "list_all isDigit [m1, m2]"
    and d: "list_all isDigit [d1, d2]"
  proof (cases k rule: matchesISODate.cases)
  qed (use assms in simp_all)
  have l: "length [y1, y2, y3, y4] = 4" "length [m1, m2] = 2" "length [d1, d2] = 2" by simp_all
  from fixedDigits_decimalValue [OF y, unfolded l(1)] fixedDigits_decimalValue [OF m, unfolded l(2)]
    fixedDigits_decimalValue [OF d, unfolded l(3)]
  show "k = keyOfFields (decimalValue (take 4 k)) (decimalValue (take 2 (drop 5 k))) (decimalValue (drop 8 k))"
    by (simp add: k keyOfFields_def del: fixedDigits.simps)
  from decimalValue_bound [OF y] show "decimalValue (take 4 k) < 10000" by (simp add: k)
  from decimalValue_bound [OF m] show "decimalValue (take 2 (drop 5 k)) < 100" by (simp add: k)
  from decimalValue_bound [OF d] show "decimalValue (drop 8 k) < 100" by (simp add: k)
qed

lemma matchesISODate_keyOfFields: "matchesISODate (keyOfFields y m d)"
  by (simp add: keyOfFields_def fixedDigits_2 fixedDigits_4 isDigit_digitChar)



lemma fields_keyOfFields:
  assumes "y < 10000" "m < 100" "d < 100"
  shows "decimalValue (take 4 (keyOfFields y m d)) = y"
    and "decimalValue (take 2 (drop 5 (keyOfFields y m d))) = m"
    and "decimalValue (drop 8 (keyOfFields y m d)) = d"
  using assms decimalValue_fixedDigits [of y 4] decimalValue_fixedDigits [of m 2]
    decimalValue_fixedDigits [of d 2]
  by (simp_all add: keyOfFields_def length_fixedDigits)

lemma strLess_keyOfFields:
  assumes "y < 10000" "m < 100" "d < 100" "y' < 10000" "m' < 100" "d' < 100"
  shows "strLess (keyOfFields y m d) (keyOfFields y' m' d') =
     (y < y' \<or> y = y' \<and> (m < m' \<or> m = m' \<and> d < d'))"
proof -
  have y4: "y < 10 ^ 4" "y' < 10 ^ 4" and m2: "m < 10 ^ 2" "m' < 10 ^ 2"
    and d2: "d < 10 ^ 2" "d' < 10 ^ 2" using assms by simp_all
  have ey: "(fixedDigits 4 y = fixedDigits 4 y') = (y = y')"
    using fixedDigits_inj [OF y4] by auto
  have em: "(fixedDigits 2 m = fixedDigits 2 m') = (m = m')"
    using fixedDigits_inj [OF m2] by auto
  have "strLess (keyOfFields y m d) (keyOfFields y' m' d') =
     (strLess (fixedDigits 4 y) (fixedDigits 4 y') \<or> fixedDigits 4 y = fixedDigits 4 y' \<and>
       strLess (fixedDigits 2 m @ CHR ''-'' # fixedDigits 2 d) (fixedDigits 2 m' @ CHR ''-'' # fixedDigits 2 d'))"
    unfolding keyOfFields_def by (simp add: strLess_append length_fixedDigits)
  also have "strLess (fixedDigits 2 m @ CHR ''-'' # fixedDigits 2 d) (fixedDigits 2 m' @ CHR ''-'' # fixedDigits 2 d')
     = (strLess (fixedDigits 2 m) (fixedDigits 2 m') \<or> fixedDigits 2 m = fixedDigits 2 m' \<and>
         strLess (fixedDigits 2 d) (fixedDigits 2 d'))"
    by (simp add: strLess_append length_fixedDigits)
  finally show ?thesis
    unfolding strLess_fixedDigits [OF y4] strLess_fixedDigits [OF m2] strLess_fixedDigits [OF d2] ey em .
qed

lemma splitDash_none: "CHR ''-'' \<notin> set s \<Longrightarrow> splitDash s = [s]"
  by (induction s) auto

lemma splitDash_field:
  "CHR ''-'' \<notin> set a \<Longrightarrow> splitDash (a @ CHR ''-'' # rest) = a # splitDash rest"
  by (induction a) auto

lemma digits_no_dash: "list_all isDigit s \<Longrightarrow> CHR ''-'' \<notin> set s"
  using isDigit_not_dash by (auto simp: list_all_iff)

lemma splitDash_keyOfFields:
  "splitDash (keyOfFields y m d) = [fixedDigits 4 y, fixedDigits 2 m, fixedDigits 2 d]"
  unfolding keyOfFields_def
  by (simp add: splitDash_field splitDash_none digits_no_dash isDigit_fixedDigits)

lemma jsNumber_fixedDigits: "n < 10 ^ w \<Longrightarrow> jsNumber (Some (fixedDigits w n)) = Some (int n)"
  by (simp add: isDigit_fixedDigits decimalValue_fixedDigits)

lemma makeLocalNoonDateFromISO_keyOfFields:
  assumes "y < 10000" "m < 100" "d < 100"
  shows "makeLocalNoonDateFromISO (keyOfFields y m d) =
     LocalTime (makeDay (if y \<le> 99 then 1900 + int y else int y) (int m - 1) (int d)) 43200000"
  using assms jsNumber_fixedDigits [of y 4] jsNumber_fixedDigits [of m 2] jsNumber_fixedDigits [of d 2]
  by (simp add: makeLocalNoonDateFromISO_def splitDash_keyOfFields element_def)

lemma matchesISODate_LocalTime:
  assumes "matchesISODate k"
  shows "\<exists>n. makeLocalNoonDateFromISO k = LocalTime n 43200000"
  using matchesISODate_fields [OF assms] makeLocalNoonDateFromISO_keyOfFields by metis


section \<open>Properties of the calendar utilities\<close>

lemma dateFromDay_bounds: "1 \<le> dateFromDay n" "dateFromDay n \<le> 31"
proof -
  have "daysInMonth (yearFromDay n) (monthFromDay n) \<le> 31"
    using inLeapYear_cases [of "yearFromDay n"] by (auto simp: daysInMonth_def)
  with dateFromDay_range [of n] show "1 \<le> dateFromDay n" "dateFromDay n \<le> 31" by simp_all
qed

lemma toISODateKeyLocal_general:
  "toISODateKeyLocal (LocalTime n ms) =
     numberToString (Some (yearFromDay n)) @
       (CHR ''-'' # fixedDigits 2 (nat (monthFromDay n + 1)) @ CHR ''-'' # fixedDigits 2 (nat (dateFromDay n)))"
proof -
  have m: "0 \<le> monthFromDay n + 1" "monthFromDay n + 1 < 100"
    using monthFromDay_range [of n] by simp_all
  have "daysInMonth (yearFromDay n) (monthFromDay n) \<le> 31"
    using inLeapYear_cases [of "yearFromDay n"] by (auto simp: daysInMonth_def)
  with dateFromDay_range [of n] have d: "0 \<le> dateFromDay n" "dateFromDay n < 100" by simp_all
  show ?thesis
    by (simp add: toISODateKeyLocal_def pad2_fixedDigits [OF m] pad2_fixedDigits [OF d]
        del: numberToString.simps)
qed

lemma toISODateKeyLocal_fields:
  assumes "1000 \<le> yearFromDay n" "yearFromDay n \<le> 9999"
  shows "toISODateKeyLocal (LocalTime n ms) =
     keyOfFields (nat (yearFromDay n)) (nat (monthFromDay n + 1)) (nat (dateFromDay n))"
proof -
  have m: "0 \<le> monthFromDay n + 1" "monthFromDay n + 1 < 100"
    using monthFromDay_range [of n] by simp_all
  have "daysInMonth (yearFromDay n) (monthFromDay n) \<le> 31"
    using inLeapYear_cases [of "yearFromDay n"] by (auto simp: daysInMonth_def)
  with dateFromDay_range [of n] have d: "0 \<le> dateFromDay n" "dateFromDay n < 100" by simp_all
  show ?thesis
    by (simp add: toISODateKeyLocal_def keyOfFields_def numberToString_year [OF assms]
        pad2_fixedDigits [OF m] pad2_fixedDigits [OF d] del: numberToString.simps)
qed


lemma day_of_fields: "n = dayFromYear (yearFromDay n) + monthStart (yearFromDay n) (monthFromDay n) + dateFromDay n - 1"
  by (simp add: dateFromDay_def)


text \<open>Different days have different keys, whatever the year.\<close>

lemma toISODateKeyLocal_inj:
  assumes "toISODateKeyLocal (LocalTime n ms) = toISODateKeyLocal (LocalTime n' ms')"
  shows "n = n'"
proof -
  let ?R = "\<lambda>n. CHR ''-'' # fixedDigits 2 (nat (monthFromDay n + 1)) @ CHR ''-'' # fixedDigits 2 (nat (dateFromDay n))"
  have len: "length (?R n) = length (?R n')" by (simp add: length_fixedDigits)
  from assms have "numberToString (Some (yearFromDay n)) @ ?R n = numberToString (Some (yearFromDay n')) @ ?R n'"
    unfolding toISODateKeyLocal_general .
  with len have y: "numberToString (Some (yearFromDay n)) = numberToString (Some (yearFromDay n'))"
    and r: "?R n = ?R n'" by (simp_all del: numberToString.simps)
  from y have yy: "yearFromDay n = yearFromDay n'" by (rule numberToString_inj)
  from r have fm: "fixedDigits 2 (nat (monthFromDay n + 1)) = fixedDigits 2 (nat (monthFromDay n' + 1))"
    and fd: "fixedDigits 2 (nat (dateFromDay n)) = fixedDigits 2 (nat (dateFromDay n'))"
    by (simp_all add: length_fixedDigits)
  have db: "\<And>k. 1 \<le> dateFromDay k \<and> dateFromDay k \<le> 31"
  proof -
    fix k
    have "daysInMonth (yearFromDay k) (monthFromDay k) \<le> 31"
      using inLeapYear_cases [of "yearFromDay k"] by (auto simp: daysInMonth_def)
    with dateFromDay_range [of k] show "1 \<le> dateFromDay k \<and> dateFromDay k \<le> 31" by simp
  qed
  have mb: "nat (monthFromDay k + 1) < 10 ^ 2" for k
    using monthFromDay_range [of k] by (simp add: nat_less_iff)
  have "nat (monthFromDay n + 1) = nat (monthFromDay n' + 1)"
    by (rule fixedDigits_inj [OF mb mb fm])
  with monthFromDay_range [of n] monthFromDay_range [of n'] have mm: "monthFromDay n = monthFromDay n'"
    by arith
  have dn: "nat (dateFromDay k) < 10 ^ 2" for k
    using db [of k] by (simp add: nat_less_iff)
  have "nat (dateFromDay n) = nat (dateFromDay n')"
    by (rule fixedDigits_inj [OF dn dn fd])
  with db [of n] db [of n'] have dd: "dateFromDay n = dateFromDay n'" by arith
  from day_of_fields [of n] day_of_fields [of n'] yy mm dd show ?thesis by simp
qed


text \<open>Days are ordered as their civil fields are, and so as their keys are.\<close>

lemma yearFromDay_mono:
  assumes "n \<le> n'"
  shows "yearFromDay n \<le> yearFromDay n'"
proof (rule ccontr)
  assume "\<not> yearFromDay n \<le> yearFromDay n'"
  then have "yearFromDay n' + 1 \<le> yearFromDay n" by simp
  then have "dayFromYear (yearFromDay n' + 1) \<le> dayFromYear (yearFromDay n)"
    by (rule dayFromYear_mono)
  with yearFromDay_bounds [of n] yearFromDay_bounds [of n'] assms show False by simp
qed

lemma year_between:
  assumes "a \<le> n" "n \<le> b" "1000 \<le> yearFromDay a" "yearFromDay b \<le> 9999"
  shows "1000 \<le> yearFromDay n" "yearFromDay n \<le> 9999"
  using yearFromDay_mono [OF assms(1)] yearFromDay_mono [OF assms(2)] assms(3,4) by simp_all

lemma monthStart_Suc:
  assumes "0 \<le> m" "m \<le> 10"
  shows "monthStart y (m + 1) = monthStart y m + daysInMonth y m"
proof -
  from assms have "0 \<le> m" "m \<le> 11" by simp_all
  then show ?thesis
  proof (cases m rule: month_cases)
  qed (use assms inLeapYear_cases [of y] in \<open>auto simp: monthStart_def daysInMonth_def\<close>)
qed

lemma daysInMonth_pos: "0 < daysInMonth y m"
  using inLeapYear_cases [of y] by (auto simp: daysInMonth_def)

lemma monthStart_less:
  assumes "0 \<le> m" "m < m'" "m' \<le> 11"
  shows "monthStart y m + daysInMonth y m \<le> monthStart y m'"
  using assms(2,1,3)
proof (induction m' rule: int_gr_induct)
  case base
  then show ?case using monthStart_Suc [of m y] by simp
next
  case (step i)
  then have "monthStart y m + daysInMonth y m \<le> monthStart y i" by simp
  moreover have "monthStart y (i + 1) = monthStart y i + daysInMonth y i"
    using step by (intro monthStart_Suc) simp_all
  ultimately show ?case using daysInMonth_pos [of y i] by simp
qed

lemma civil_less:
  assumes "yearFromDay n < yearFromDay n'
     \<or> yearFromDay n = yearFromDay n' \<and>
        (monthFromDay n < monthFromDay n'
          \<or> monthFromDay n = monthFromDay n' \<and> dateFromDay n < dateFromDay n')"
  shows "n < n'"
proof -
  consider (y) "yearFromDay n < yearFromDay n'"
    | (m) "yearFromDay n = yearFromDay n'" "monthFromDay n < monthFromDay n'"
    | (d) "yearFromDay n = yearFromDay n'" "monthFromDay n = monthFromDay n'" "dateFromDay n < dateFromDay n'"
    using assms by blast
  then show ?thesis
  proof cases
    case y
    then have "dayFromYear (yearFromDay n + 1) \<le> dayFromYear (yearFromDay n')"
      by (intro dayFromYear_mono) simp
    with yearFromDay_bounds [of n] yearFromDay_bounds [of n'] show ?thesis by simp
  next
    case m
    have "monthStart (yearFromDay n) (monthFromDay n) + daysInMonth (yearFromDay n) (monthFromDay n)
        \<le> monthStart (yearFromDay n) (monthFromDay n')"
      using m(2) monthFromDay_range [of n] monthFromDay_range [of n']
      by (intro monthStart_less) simp_all
    with day_of_fields [of n] day_of_fields [of n'] dateFromDay_range [of n] dateFromDay_range [of n'] m(1)
    show ?thesis by simp
  next
    case d
    with day_of_fields [of n] day_of_fields [of n'] show ?thesis by simp
  qed
qed

lemma civil_less_iff:
  "(n < n') =
   (yearFromDay n < yearFromDay n'
     \<or> yearFromDay n = yearFromDay n' \<and>
        (monthFromDay n < monthFromDay n'
          \<or> monthFromDay n = monthFromDay n' \<and> dateFromDay n < dateFromDay n'))"
proof
  assume lt: "n < n'"
  show "yearFromDay n < yearFromDay n'
     \<or> yearFromDay n = yearFromDay n' \<and>
        (monthFromDay n < monthFromDay n'
          \<or> monthFromDay n = monthFromDay n' \<and> dateFromDay n < dateFromDay n')"
  proof (rule ccontr)
    assume neg: "\<not> ?thesis"
    have "n = n' \<or> n' < n"
    proof (cases "yearFromDay n = yearFromDay n' \<and> monthFromDay n = monthFromDay n'
        \<and> dateFromDay n = dateFromDay n'")
      case True
      with day_of_fields [of n] day_of_fields [of n'] show ?thesis by simp
    next
      case False
      with neg have "yearFromDay n' < yearFromDay n
        \<or> yearFromDay n' = yearFromDay n \<and>
        (monthFromDay n' < monthFromDay n
          \<or> monthFromDay n' = monthFromDay n \<and> dateFromDay n' < dateFromDay n)" by auto
      then have "n' < n" by (rule civil_less)
      then show ?thesis ..
    qed
    with lt show False by simp
  qed
next
  assume "yearFromDay n < yearFromDay n'
     \<or> yearFromDay n = yearFromDay n' \<and>
        (monthFromDay n < monthFromDay n'
          \<or> monthFromDay n = monthFromDay n' \<and> dateFromDay n < dateFromDay n')"
  then show "n < n'" by (rule civil_less)
qed

lemma fields_bounds:
  assumes "1000 \<le> yearFromDay n" "yearFromDay n \<le> 9999"
  shows "nat (yearFromDay n) < 10000" "nat (monthFromDay n + 1) < 100" "nat (dateFromDay n) < 100"
    "1000 \<le> nat (yearFromDay n)" "1 \<le> nat (monthFromDay n + 1)" "nat (monthFromDay n + 1) \<le> 12"
    "1 \<le> nat (dateFromDay n)"
proof -
  from dateFromDay_bounds [of n] show "nat (dateFromDay n) < 100" "1 \<le> nat (dateFromDay n)" by arith+
  from monthFromDay_range [of n] show "nat (monthFromDay n + 1) < 100" "1 \<le> nat (monthFromDay n + 1)"
    "nat (monthFromDay n + 1) \<le> 12" by arith+
  from assms show "nat (yearFromDay n) < 10000" "1000 \<le> nat (yearFromDay n)" by arith+
qed

lemma strLess_keys:
  assumes "1000 \<le> yearFromDay n" "yearFromDay n \<le> 9999"
    and "1000 \<le> yearFromDay n'" "yearFromDay n' \<le> 9999"
  shows "strLess (toISODateKeyLocal (LocalTime n ms)) (toISODateKeyLocal (LocalTime n' ms')) = (n < n')"
proof -
  note b = fields_bounds [OF assms(1,2)] and b' = fields_bounds [OF assms(3,4)]
  have "strLess (toISODateKeyLocal (LocalTime n ms)) (toISODateKeyLocal (LocalTime n' ms')) =
     (nat (yearFromDay n) < nat (yearFromDay n') \<or> nat (yearFromDay n) = nat (yearFromDay n') \<and>
       (nat (monthFromDay n + 1) < nat (monthFromDay n' + 1) \<or>
        nat (monthFromDay n + 1) = nat (monthFromDay n' + 1) \<and> nat (dateFromDay n) < nat (dateFromDay n')))"
    unfolding toISODateKeyLocal_fields [OF assms(1,2)] toISODateKeyLocal_fields [OF assms(3,4)]
    by (rule strLess_keyOfFields [OF b(1,2,3) b'(1,2,3)])
  also have "\<dots> = (yearFromDay n < yearFromDay n'
     \<or> yearFromDay n = yearFromDay n' \<and>
        (monthFromDay n < monthFromDay n'
          \<or> monthFromDay n = monthFromDay n' \<and> dateFromDay n < dateFromDay n'))"
    using b(4,5,7) b'(4,5,7) by auto
  also have "\<dots> = (n < n')" by (rule civil_less_iff [symmetric])
  finally show ?thesis .
qed

lemma compareISODate_keys:
  assumes "1000 \<le> yearFromDay n" "yearFromDay n \<le> 9999"
    and "1000 \<le> yearFromDay n'" "yearFromDay n' \<le> 9999"
  shows "compareISODate (toISODateKeyLocal (LocalTime n ms)) (toISODateKeyLocal (LocalTime n' ms'))
     = (if n < n' then - 1 else if n' < n then 1 else 0)"
  unfolding compareISODate_def strLess_keys [OF assms] strLess_keys [OF assms(3,4,1,2)] ..


text \<open>The keys of the spec are the canonical strings the utility produces.\<close>

lemma isCalendarDateKey_roundtrip:
  assumes "isCalendarDateKey k"
  shows "\<exists>n. makeLocalNoonDateFromISO k = LocalTime n 43200000
           \<and> 1000 \<le> yearFromDay n \<and> yearFromDay n \<le> 9999
           \<and> toISODateKeyLocal (LocalTime n ms) = k"
proof -
  let ?y = "decimalValue (take 4 k)"
  let ?m = "decimalValue (take 2 (drop 5 k))"
  let ?d = "decimalValue (drop 8 k)"
  from assms have iso: "matchesISODate k"
    and v: "1000 \<le> int ?y" "1 \<le> int ?m" "int ?m \<le> 12" "1 \<le> int ?d"
      "int ?d \<le> daysInMonth (int ?y) (int ?m - 1)"
    by (simp_all add: isCalendarDateKey_def Let_def)
  note f = matchesISODate_fields [OF iso]
  let ?n = "makeDay (int ?y) (int ?m - 1) (int ?d)"
  have c: "0 \<le> int ?m - 1" "int ?m - 1 \<le> 11" "1 \<le> int ?d"
    "int ?d \<le> daysInMonth (int ?y) (int ?m - 1)" using v by simp_all
  have mk: "makeLocalNoonDateFromISO k = LocalTime ?n 43200000"
    using makeLocalNoonDateFromISO_keyOfFields [OF f(2,3,4)] f(1) v(1) by simp
  have yr: "yearFromDay ?n = int ?y" by (rule yearFromDay_makeDay [OF c])
  have mo: "monthFromDay ?n = int ?m - 1" by (rule monthFromDay_makeDay [OF c])
  have da: "dateFromDay ?n = int ?d" by (rule dateFromDay_makeDay [OF c])
  have r: "1000 \<le> yearFromDay ?n" "yearFromDay ?n \<le> 9999" using yr v(1) f(2) by simp_all
  have "toISODateKeyLocal (LocalTime ?n ms) = keyOfFields ?y ?m ?d"
    unfolding toISODateKeyLocal_fields [OF r] yr mo da by simp
  with f(1) mk r show ?thesis by auto
qed

lemma isCalendarDateKey_key:
  assumes "1000 \<le> yearFromDay n" "yearFromDay n \<le> 9999"
  shows "isCalendarDateKey (toISODateKeyLocal (LocalTime n ms))"
proof -
  note b = fields_bounds [OF assms]
  note f = fields_keyOfFields [OF b(1,2,3)]
  have e: "int (nat (yearFromDay n)) = yearFromDay n" "int (nat (dateFromDay n)) = dateFromDay n"
    "int (nat (monthFromDay n + 1)) - 1 = monthFromDay n"
    using assms dateFromDay_bounds [of n] monthFromDay_range [of n] by simp_all
  have "1000 \<le> yearFromDay n \<and> 1 \<le> monthFromDay n + 1 \<and> monthFromDay n + 1 \<le> 12
      \<and> 1 \<le> dateFromDay n \<and> dateFromDay n \<le> daysInMonth (yearFromDay n) (monthFromDay n)"
    using assms dateFromDay_range [of n] monthFromDay_range [of n] by simp
  moreover have "int (nat (monthFromDay n + 1)) = monthFromDay n + 1"
    using monthFromDay_range [of n] by simp
  ultimately show ?thesis
    unfolding toISODateKeyLocal_fields [OF assms] isCalendarDateKey_def f Let_def e
    by (simp add: matchesISODate_keyOfFields)
qed



lemma calendar_day:
  assumes "isCalendarDateKey k"
  obtains n where "makeLocalNoonDateFromISO k = LocalTime n 43200000"
    and "1000 \<le> yearFromDay n" and "yearFromDay n \<le> 9999"
    and "toISODateKeyLocal (LocalTime n 43200000) = k"
  using isCalendarDateKey_roundtrip [OF assms, of 43200000] by blast


text \<open>
  Keys that only have the shape \<^verbatim>\<open>YYYY-MM-DD\<close> are normalised by the conversion to a
  date and back, as the comment on \<^verbatim>\<open>isISODateKey\<close> says (``we also rely on
  parsing/formatting to normalize''): a day past the end of its month moves into the
  next month, and a year below 100 moves into the twentieth century.
\<close>

lemma overflow_key_normalised:
  "toISODateKeyLocal (makeLocalNoonDateFromISO ''2024-02-30'') = ''2024-03-01''"
  by code_simp

lemma two_digit_year_shifted:
  "toISODateKeyLocal (makeLocalNoonDateFromISO ''0050-01-01'') = ''1950-01-01''"
  by code_simp



text \<open>
  Claim C10. The check of day keys in \<^verbatim>\<open>coerceSave\<close> is purely syntactic:
  \<^verbatim>\<open>isISODateKey\<close> accepts \<^verbatim>\<open>2024-99-99\<close>, which names no calendar day and which
  the date conversion would turn into \<^verbatim>\<open>2032-06-07\<close>; \<^verbatim>\<open>coerceSave\<close> accepts an input
  of version 2 that uses it as \<^verbatim>\<open>startDate\<close> and as a key of \<^verbatim>\<open>taken\<close>, and stores it
  unchanged in both places.
\<close>

theorem coerceSave_syntactic_only:
  "isISODateKey (JString ''2024-99-99'')
   \<and> \<not> isCalendarDateKey ''2024-99-99''
   \<and> toISODateKeyLocal (makeLocalNoonDateFromISO ''2024-99-99'') = ''2032-06-07''
   \<and> coerceSave now (JObject [(''version'', JNumber 2), (''startDate'', JString ''2024-99-99''),
        (''taken'', JObject [(''2024-99-99'', JNull)])])
      = Inr (Some \<lparr>version = 2, startDate = ''2024-99-99'', taken = [(''2024-99-99'', None)],
                   updatedAt = now\<rparr>)"
proof -
  have "isISODateKey (JString ''2024-99-99'')" by (simp add: isDigit_def)
  moreover have "\<not> isCalendarDateKey ''2024-99-99''" by code_simp
  moreover have "toISODateKeyLocal (makeLocalNoonDateFromISO ''2024-99-99'') = ''2032-06-07''"
    by code_simp
  moreover have "coerceSave now (JObject [(''version'', JNumber 2),
        (''startDate'', JString ''2024-99-99''), (''taken'', JObject [(''2024-99-99'', JNull)])])
      = Inr (Some \<lparr>version = 2, startDate = ''2024-99-99'', taken = [(''2024-99-99'', None)],
                   updatedAt = now\<rparr>)"
    by (simp add: coerceSave_def throwing_def isDigit_def)
  ultimately show ?thesis by blast
qed

theorem coerceSave_syntactic_only_witness:
  "coerceSave 7 (JObject [(''version'', JNumber 2), (''startDate'', JString ''2024-99-99''),
       (''taken'', JObject [(''2024-99-99'', JNull)])])
     = Inr (Some \<lparr>version = 2, startDate = ''2024-99-99'', taken = [(''2024-99-99'', None)],
                  updatedAt = 7\<rparr>)
   \<and> isTaken \<lparr>version = 2, startDate = ''2024-99-99'', taken = [(''2024-99-99'', None)],
                  updatedAt = 7\<rparr> ''2024-99-99''"
  using coerceSave_syntactic_only [of 7] by (simp add: isTaken_def)

section \<open>Properties of the history range\<close>

text \<open>
  In a zone where every calendar day has a noon the loop walks down the days and
  returns.
\<close>

lemma historyLoop_days:
  assumes "everyDayHasNoon z"
  shows "historyLoop z (LocalTime a 43200000) (LocalTime b 43200000) out =
     Some (out @ map (\<lambda>i. toISODateKeyLocal (LocalTime (b - int i) 43200000)) [0..<nat (b - a + 1)])"
proof (induction "nat (b - a + 1)" arbitrary: b out)
  case 0
  then have "\<not> dateGe (LocalTime b 43200000) (LocalTime a 43200000)" by simp
  with 0 show ?case by (subst historyLoop.simps) simp
next
  case (Suc m)
  then have ge: "dateGe (LocalTime b 43200000) (LocalTime a 43200000)" and m: "m = nat (b - 1 - a + 1)"
    by auto
  from Suc(2) have n: "nat (b - a + 1) = Suc m" by simp
  have "historyLoop z (LocalTime a 43200000) (LocalTime b 43200000) out =
        historyLoop z (LocalTime a 43200000) (LocalTime (b - 1) 43200000)
          (out @ [toISODateKeyLocal (LocalTime b 43200000)])"
    using ge by (subst historyLoop.simps) (simp add: addDaysLocalNoon_noon [OF assms])
  also have "\<dots> = Some ((out @ [toISODateKeyLocal (LocalTime b 43200000)]) @
      map (\<lambda>i. toISODateKeyLocal (LocalTime (b - 1 - int i) 43200000)) [0..<m])"
    using Suc(1) [OF m] m by simp
  also have "\<dots> = Some (out @ map (\<lambda>i. toISODateKeyLocal (LocalTime (b - int i) 43200000)) [0..<Suc m])"
    by (simp add: upt_conv_Cons map_Suc_upt [symmetric] del: upt_Suc) (simp add: algebra_simps)
  finally show ?case unfolding n .
qed

lemma buildHistoryKeysInclusive_days:
  assumes "everyDayHasNoon z"
    and "makeLocalNoonDateFromISO start = LocalTime a 43200000"
    and "makeLocalNoonDateFromISO end = LocalTime b 43200000"
  shows "buildHistoryKeysInclusive z start end =
     Some (map (\<lambda>i. toISODateKeyLocal (LocalTime (b - int i) 43200000)) [0..<nat (b - a + 1)])"
  using assms(2,3)
  by (simp add: buildHistoryKeysInclusive_def inZone_noon [OF assms(1)] historyLoop_days [OF assms(1)]
      del: inZone.simps)


text \<open>
  The range in a zone where every calendar day has a noon. For day keys \<open>start\<close> and
  \<open>end\<close>, \<^verbatim>\<open>buildHistoryKeysInclusive\<close> returns. With \<open>start\<close> not after \<open>end\<close> by
  \<^verbatim>\<open>compareISODate\<close> it returns \<open>dayCount start end + 1\<close> keys: the key of \<open>end\<close>
  first, then the key of each earlier day in turn, down to the key of \<open>start\<close>; each
  key is earlier than the ones before it; and the keys returned are exactly the day
  keys from \<open>start\<close> to \<open>end\<close>. With \<open>start\<close> after \<open>end\<close> the result is empty.
\<close>

lemma buildHistoryKeysInclusive_range_noons:
  assumes z: "everyDayHasNoon z" and "isCalendarDateKey start" "isCalendarDateKey end"
  shows "\<exists>ks. buildHistoryKeysInclusive z start end = Some ks
       \<and> (compareISODate start end \<le> 0 \<longrightarrow>
            int (length ks) = dayCount start end + 1
          \<and> (\<forall>i<length ks. ks ! i = keyBefore (makeLocalNoonDateFromISO end) i)
          \<and> hd ks = end
          \<and> last ks = start
          \<and> (\<forall>i j. i < j \<and> j < length ks \<longrightarrow> compareISODate (ks ! j) (ks ! i) < 0)
          \<and> set ks =
                {k. isCalendarDateKey k \<and> compareISODate start k \<le> 0 \<and> compareISODate k end \<le> 0})
       \<and> (compareISODate start end > 0 \<longrightarrow> ks = [])"
proof -
  let ?noon = "43200000 :: int"
  let ?key = "\<lambda>n. toISODateKeyLocal (LocalTime n ?noon)"
  from assms(2) obtain a where a: "makeLocalNoonDateFromISO start = LocalTime a ?noon"
    "1000 \<le> yearFromDay a" "yearFromDay a \<le> 9999" "?key a = start"
    by (rule calendar_day)
  from assms(3) obtain b where b: "makeLocalNoonDateFromISO end = LocalTime b ?noon"
    "1000 \<le> yearFromDay b" "yearFromDay b \<le> 9999" "?key b = end"
    by (rule calendar_day)
  define ks where "ks = map (\<lambda>i. ?key (b - int i)) [0..<nat (b - a + 1)]"
  have ret: "buildHistoryKeysInclusive z start end = Some ks"
    unfolding ks_def by (rule buildHistoryKeysInclusive_days [OF z a(1) b(1)])
  have cmp: "compareISODate start end = (if a < b then - 1 else if b < a then 1 else 0)"
    using compareISODate_keys [OF a(2,3) b(2,3), of ?noon ?noon] a(4) b(4) by simp
  have dc: "dayCount start end = b - a" by (simp add: dayCount_def a b)
  have kb: "keyBefore (makeLocalNoonDateFromISO end) i = ?key (b - int i)" for i
    by (simp add: b)
  have main: "(compareISODate start end \<le> 0 \<longrightarrow>
            int (length ks) = dayCount start end + 1
          \<and> (\<forall>i<length ks. ks ! i = keyBefore (makeLocalNoonDateFromISO end) i)
          \<and> hd ks = end
          \<and> last ks = start
          \<and> (\<forall>i j. i < j \<and> j < length ks \<longrightarrow> compareISODate (ks ! j) (ks ! i) < 0)
          \<and> set ks =
                {k. isCalendarDateKey k \<and> compareISODate start k \<le> 0 \<and> compareISODate k end \<le> 0})
       \<and> (compareISODate start end > 0 \<longrightarrow> ks = [])"
  proof (intro conjI impI)
    assume "compareISODate start end > 0"
    with cmp have "b < a" by (simp split: if_splits)
    then show "ks = []" by (simp add: ks_def)
  next
    assume "compareISODate start end \<le> 0"
    with cmp have le: "a \<le> b" by (simp split: if_splits)
    then have len: "length ks = nat (b - a) + 1" by (simp add: ks_def nat_add_distrib)
    show "int (length ks) = dayCount start end + 1" using le by (simp add: len dc)
    show nth: "\<forall>i<length ks. ks ! i = keyBefore (makeLocalNoonDateFromISO end) i"
      by (simp add: ks_def kb)
    have ne: "ks \<noteq> []" using len by auto
    from nth len have "ks ! 0 = ?key b" by (simp add: kb)
    with ne b(4) show "hd ks = end" by (simp add: hd_conv_nth)
    from nth len le have "ks ! (length ks - 1) = ?key a" by (simp add: kb)
    with ne a(4) show "last ks = start" by (simp add: last_conv_nth)
    have yr: "1000 \<le> yearFromDay (b - int i) \<and> yearFromDay (b - int i) \<le> 9999"
      if "i < length ks" for i
    proof -
      from that len le have "a \<le> b - int i" "b - int i \<le> b" by simp_all
      from year_between [OF this a(2) b(3)] show ?thesis by simp
    qed
    show "\<forall>i j. i < j \<and> j < length ks \<longrightarrow> compareISODate (ks ! j) (ks ! i) < 0"
    proof (intro allI impI)
      fix i j assume ij: "i < j \<and> j < length ks"
      then have i: "i < length ks" and j: "j < length ks" by simp_all
      from yr [OF i] yr [OF j] have "compareISODate (?key (b - int j)) (?key (b - int i))
          = (if b - int j < b - int i then - 1 else if b - int i < b - int j then 1 else 0)"
        by (intro compareISODate_keys) simp_all
      with ij nth i j show "compareISODate (ks ! j) (ks ! i) < 0" by (simp add: kb)
    qed
    show "set ks = {k. isCalendarDateKey k \<and> compareISODate start k \<le> 0 \<and> compareISODate k end \<le> 0}"
    proof (intro equalityI subsetI)
      fix k assume "k \<in> set ks"
      then obtain i where i: "i < length ks" and k: "k = ?key (b - int i)"
        using nth by (auto simp: in_set_conv_nth kb)
      from yr [OF i] have y: "1000 \<le> yearFromDay (b - int i)" "yearFromDay (b - int i) \<le> 9999"
        by simp_all
      from i len le have r: "a \<le> b - int i" "b - int i \<le> b" by simp_all
      have "isCalendarDateKey k" unfolding k by (rule isCalendarDateKey_key [OF y])
      moreover have "compareISODate start k \<le> 0"
        using compareISODate_keys [OF a(2,3) y, of ?noon ?noon] a(4) r k by simp
      moreover have "compareISODate k end \<le> 0"
        using compareISODate_keys [OF y b(2,3), of ?noon ?noon] b(4) r k by simp
      ultimately show "k \<in> {k. isCalendarDateKey k \<and> compareISODate start k \<le> 0 \<and> compareISODate k end \<le> 0}"
        by simp
    next
      fix k assume "k \<in> {k. isCalendarDateKey k \<and> compareISODate start k \<le> 0 \<and> compareISODate k end \<le> 0}"
      then have c: "isCalendarDateKey k" and s: "compareISODate start k \<le> 0"
        and e: "compareISODate k end \<le> 0" by simp_all
      from c obtain n where n: "1000 \<le> yearFromDay n" "yearFromDay n \<le> 9999" "?key n = k"
        by (rule calendar_day)
      from s compareISODate_keys [OF a(2,3) n(1,2), of ?noon ?noon] a(4) n(3) have "a \<le> n"
        by (simp split: if_splits)
      moreover from e compareISODate_keys [OF n(1,2) b(2,3), of ?noon ?noon] b(4) n(3) have "n \<le> b"
        by (simp split: if_splits)
      ultimately have "nat (b - n) < length ks" "b - int (nat (b - n)) = n"
        using len by simp_all
      with nth n(3) have "ks ! nat (b - n) = k" by (simp add: kb)
      with \<open>nat (b - n) < length ks\<close> show "k \<in> set ks" by (metis nth_mem)
    qed
  qed
  from ret main show ?thesis by blast
qed

lemma buildHistoryKeysInclusive_leap_year:
  "buildHistoryKeysInclusive (fixedOffset 0) ''2024-02-27'' ''2024-03-01''
       = Some [''2024-03-01'', ''2024-02-29'', ''2024-02-28'', ''2024-02-27'']
   \<and> dayCount ''2024-02-27'' ''2024-03-01'' = 3
   \<and> buildHistoryKeysInclusive (fixedOffset 0) ''2024-03-01'' ''2024-02-27'' = Some []"
  by code_simp


text \<open>
  Where the zone has no local time for the fields that \<^verbatim>\<open>setDate\<close> is given, the day
  before a date can be that date again. The loop does not get past such a date: it
  pushes the key of the date for ever and does not return.
\<close>

lemma historyLoop_stuck:
  assumes "dateGe d startD" and "addDaysLocalNoon z d (- 1) = d"
  shows "historyLoop z startD d out = None"
proof (rule ccontr)
  assume "historyLoop z startD d out \<noteq> None"
  then obtain y where y: "historyLoop z startD d out = Some y" by auto
  have "\<not> (dateGe d startD \<and> addDaysLocalNoon z d (- 1) = d)"
  proof (rule historyLoop.raw_induct
      [where P = "\<lambda>z startD d out y. \<not> (dateGe d startD \<and> addDaysLocalNoon z d (- 1) = d)", OF _ y])
    fix f z startD d out r
    assume IH: "\<And>z startD d out y. f z startD d out = Some y \<Longrightarrow>
        \<not> (dateGe d startD \<and> addDaysLocalNoon z d (- 1) = d)"
      and eq: "(if dateGe d startD
        then f z startD (addDaysLocalNoon z d (- 1)) (out @ [toISODateKeyLocal d])
        else Some out) = Some r"
    show "\<not> (dateGe d startD \<and> addDaysLocalNoon z d (- 1) = d)"
    proof
      assume a: "dateGe d startD \<and> addDaysLocalNoon z d (- 1) = d"
      with eq have "f z startD d (out @ [toISODateKeyLocal d]) = Some r" by simp
      from IH [OF this] a show False by simp
    qed
  qed
  with assms show False by simp
qed

lemma apia_new_years_eve:
  "addDaysLocalNoon apiaZone (LocalTime 15339 43200000) (- 1) = LocalTime 15339 43200000"
  by code_simp

lemma apia_dates:
  "inZone apiaZone (makeLocalNoonDateFromISO ''2011-12-28'') = LocalTime 15336 43200000"
  "inZone apiaZone (makeLocalNoonDateFromISO ''2011-12-29'') = LocalTime 15337 43200000"
  "inZone apiaZone (makeLocalNoonDateFromISO ''2011-12-31'') = LocalTime 15339 43200000"
  "inZone apiaZone (makeLocalNoonDateFromISO ''2012-01-01'') = LocalTime 15340 43200000"
  "addDaysLocalNoon apiaZone (LocalTime 15340 43200000) (- 1) = LocalTime 15339 43200000"
  "toISODateKeyLocal (LocalTime 15339 43200000) = ''2011-12-31''"
  "toISODateKeyLocal (LocalTime 15340 43200000) = ''2012-01-01''"
  by code_simp+


text \<open>
  Claim C5. The claim is that for day keys \<open>start\<close> not after \<open>end\<close>
  \<^verbatim>\<open>buildHistoryKeysInclusive\<close> produces the keys from \<open>end\<close> down to \<open>start\<close>. On a
  device in the zone of Samoa it produces nothing for the day keys \<^verbatim>\<open>2011-12-29\<close>
  and \<^verbatim>\<open>2011-12-31\<close>: the call does not return. The day before 31 December 2011 is
  29 December there; \<^verbatim>\<open>addDaysLocalNoon\<close> asks for noon of the 30th, which the
  zone skipped, and is given noon of the 31st again.
\<close>

theorem buildHistoryKeysInclusive_skipped_day:
  "isCalendarDateKey ''2011-12-29'' \<and> isCalendarDateKey ''2011-12-31''
   \<and> compareISODate ''2011-12-29'' ''2011-12-31'' \<le> 0
   \<and> addDaysLocalNoon apiaZone (inZone apiaZone (makeLocalNoonDateFromISO ''2011-12-31'')) (- 1)
       = inZone apiaZone (makeLocalNoonDateFromISO ''2011-12-31'')
   \<and> buildHistoryKeysInclusive apiaZone ''2011-12-29'' ''2011-12-31'' = None"
proof -
  have s: "isCalendarDateKey ''2011-12-29''" by code_simp
  have e: "isCalendarDateKey ''2011-12-31''" by code_simp
  have c: "compareISODate ''2011-12-29'' ''2011-12-31'' \<le> 0" by (simp add: compareISODate_def)
  have n: "historyLoop apiaZone (LocalTime 15337 43200000) (LocalTime 15339 43200000) [] = None"
    by (rule historyLoop_stuck [OF _ apia_new_years_eve]) simp
  then have "buildHistoryKeysInclusive apiaZone ''2011-12-29'' ''2011-12-31'' = None"
    by (simp add: buildHistoryKeysInclusive_def apia_dates del: inZone.simps)
  with s e c apia_new_years_eve show ?thesis by (simp add: apia_dates del: inZone.simps)
qed


section \<open>Properties of the current streak\<close>

text \<open>
  Walking down the calendar days, the walk of \<^verbatim>\<open>computeCurrentStreak\<close> meets a day
  that is not taken: the record has finitely many entries and the days before the
  anchor have pairwise different keys. So the walk ends in a zone where every
  calendar day has a noon.
\<close>

lemma walk_stops: "\<exists>j. \<not> isTaken save (toISODateKeyLocal (LocalTime (c - int j) ms))"
proof (rule ccontr)
  let ?f = "\<lambda>j. toISODateKeyLocal (LocalTime (c - int j) ms)"
  let ?S = "set (map fst (taken save))"
  assume "\<not> (\<exists>j. \<not> isTaken save (?f j))"
  then have all: "\<And>j. ?f j \<in> ?S" by (simp add: isTaken_def)
  have "inj ?f"
  proof (rule injI)
    fix i j assume "?f i = ?f j"
    then have "c - int i = c - int j" by (rule toISODateKeyLocal_inj)
    then show "i = j" by simp
  qed
  then have "finite (?f -` ?S)" by (intro finite_vimageI) simp
  moreover from all have "?f -` ?S = UNIV" by auto
  ultimately show False by simp
qed

lemma streakWalk_run:
  assumes z: "everyDayHasNoon z"
  shows "(\<And>i. i < j \<Longrightarrow> isTaken save (toISODateKeyLocal (LocalTime (c - int i) 43200000))) \<Longrightarrow>
   \<not> isTaken save (toISODateKeyLocal (LocalTime (c - int j) 43200000)) \<Longrightarrow>
   streakWalk z save (LocalTime c 43200000) len = Some (len + int j, LocalTime (c - int j) 43200000)"
proof (induction j arbitrary: c len)
  case 0
  then show ?case by (subst streakWalk.simps) simp
next
  case (Suc j)
  from Suc.prems(1) [of 0] have t: "isTaken save (toISODateKeyLocal (LocalTime c 43200000))" by simp
  have a: "isTaken save (toISODateKeyLocal (LocalTime (c - 1 - int i) 43200000))" if "i < j" for i
    using Suc.prems(1) [of "Suc i"] that by (simp add: algebra_simps)
  have b: "\<not> isTaken save (toISODateKeyLocal (LocalTime (c - 1 - int j) 43200000))"
    using Suc.prems(2) by (simp add: algebra_simps)
  from Suc.IH [of "c - 1" "len + 1", OF a b]
  have "streakWalk z save (LocalTime (c - 1) 43200000) (len + 1)
      = Some (len + 1 + int j, LocalTime (c - 1 - int j) 43200000)" .
  with t show ?case
    by (subst streakWalk.simps) (simp add: addDaysLocalNoon_noon [OF z] algebra_simps)
qed

lemma streakWalk_total:
  assumes z: "everyDayHasNoon z"
  shows "\<exists>j. (\<forall>i<j. isTaken save (toISODateKeyLocal (LocalTime (c - int i) 43200000)))
       \<and> \<not> isTaken save (toISODateKeyLocal (LocalTime (c - int j) 43200000))
       \<and> streakWalk z save (LocalTime c 43200000) len = Some (len + int j, LocalTime (c - int j) 43200000)"
proof -
  let ?P = "\<lambda>j. \<not> isTaken save (toISODateKeyLocal (LocalTime (c - int j) 43200000))"
  define j where "j = (LEAST j. ?P j)"
  from walk_stops [of save c 43200000] have "?P j" unfolding j_def by (rule LeastI_ex)
  moreover have "\<And>i. i < j \<Longrightarrow> isTaken save (toISODateKeyLocal (LocalTime (c - int i) 43200000))"
    using not_less_Least [of _ ?P] unfolding j_def by blast
  ultimately show ?thesis using streakWalk_run [OF z, of j save c len] by blast
qed

lemma computeCurrentStreak_noons:
  assumes z: "everyDayHasNoon z" and t: "makeLocalNoonDateFromISO today = LocalTime t 43200000"
  shows "(\<not> isTaken save (toISODateKeyLocal (anchorDate save today)) \<longrightarrow>
            computeCurrentStreak z save today = Some \<lparr>length_si = 0, start_si = None, end_si = None\<rparr>)
       \<and> (isTaken save (toISODateKeyLocal (anchorDate save today)) \<longrightarrow>
            (\<exists>n>0. computeCurrentStreak z save today =
                Some \<lparr>length_si = int n,
                      start_si = Some (keyBefore (anchorDate save today) (n - 1)),
                      end_si = Some (toISODateKeyLocal (anchorDate save today))\<rparr>
              \<and> (\<forall>i<n. isTaken save (keyBefore (anchorDate save today) i))
              \<and> \<not> isTaken save (keyBefore (anchorDate save today) n)))"
proof -
  let ?noon = "43200000 :: int"
  define a where "a = (if isTaken save today then t else t - 1)"
  have ad: "anchorDate save today = LocalTime a ?noon" by (simp add: anchorDate_def t a_def)
  have sc: "(if isTaken save today then inZone z (makeLocalNoonDateFromISO today)
             else addDaysLocalNoon z (inZone z (makeLocalNoonDateFromISO today)) (- 1))
            = LocalTime a ?noon"
    by (simp add: t a_def inZone_noon [OF z] addDaysLocalNoon_noon [OF z] del: inZone.simps)
  have ccs: "computeCurrentStreak z save today =
      (if \<not> isTaken save (toISODateKeyLocal (LocalTime a ?noon))
       then Some \<lparr>length_si = 0, start_si = None, end_si = None\<rparr>
       else map_option
        (\<lambda>(len, cursor).
           \<lparr>length_si = len,
            start_si = Some (toISODateKeyLocal (addDaysLocalNoon z cursor 1)),
            end_si = Some (toISODateKeyLocal (LocalTime a ?noon))\<rparr>)
        (streakWalk z save (LocalTime a ?noon) 0))"
    unfolding computeCurrentStreak_def Let_def sc ..
  show ?thesis unfolding ad
  proof (intro conjI impI)
    assume "\<not> isTaken save (toISODateKeyLocal (LocalTime a ?noon))"
    then show "computeCurrentStreak z save today = Some \<lparr>length_si = 0, start_si = None, end_si = None\<rparr>"
      by (simp add: ccs)
  next
    assume tk: "isTaken save (toISODateKeyLocal (LocalTime a ?noon))"
    from streakWalk_total [OF z, of save a 0] obtain j where
      j: "\<forall>i<j. isTaken save (toISODateKeyLocal (LocalTime (a - int i) ?noon))"
        "\<not> isTaken save (toISODateKeyLocal (LocalTime (a - int j) ?noon))"
        "streakWalk z save (LocalTime a ?noon) 0 = Some (int j, LocalTime (a - int j) ?noon)"
      by auto
    from tk j(2) have pos: "0 < j" by (cases j) simp_all
    then have s: "a - int j + 1 = a - int (j - 1)" by simp
    have "computeCurrentStreak z save today =
        Some \<lparr>length_si = int j,
              start_si = Some (keyBefore (LocalTime a ?noon) (j - 1)),
              end_si = Some (toISODateKeyLocal (LocalTime a ?noon))\<rparr>"
      using tk j(3) by (simp add: ccs addDaysLocalNoon_noon [OF z] s)
    moreover have "\<forall>i<j. isTaken save (keyBefore (LocalTime a ?noon) i)"
      using j(1) by simp
    moreover have "\<not> isTaken save (keyBefore (LocalTime a ?noon) j)"
      using j(2) by simp
    ultimately show "\<exists>n>0. computeCurrentStreak z save today =
                  Some \<lparr>length_si = int n,
                        start_si = Some (keyBefore (LocalTime a ?noon) (n - 1)),
                        end_si = Some (toISODateKeyLocal (LocalTime a ?noon))\<rparr>
                \<and> (\<forall>i<n. isTaken save (keyBefore (LocalTime a ?noon) i))
                \<and> \<not> isTaken save (keyBefore (LocalTime a ?noon) n)"
      using pos by blast
  qed
qed


text \<open>
  The anchor algorithm in a zone where every calendar day has a noon. For every
  record and every day key \<open>today\<close>, \<^verbatim>\<open>computeCurrentStreak\<close> returns. The anchor
  is today if today is taken (its key is then \<open>today\<close>), else the day before. If the
  anchor is not taken the result has length 0 and neither \<^verbatim>\<open>start\<close> nor \<^verbatim>\<open>end\<close>.
  Otherwise, for some \<open>n\<close> of at least 1, the \<open>n\<close> days ending at the anchor are all
  taken and the day before them is not; the result has length \<open>n\<close>, \<^verbatim>\<open>end\<close> the
  anchor's key and \<^verbatim>\<open>start\<close> the key of the earliest of those days. In particular,
  if today is not taken and yesterday is, \<^verbatim>\<open>end\<close> is yesterday; if neither is taken
  the length is 0, whatever else the record holds.
\<close>

lemma computeCurrentStreak_anchor_noons:
  assumes z: "everyDayHasNoon z" and "isCalendarDateKey today"
  shows "(isTaken save today \<longrightarrow> toISODateKeyLocal (anchorDate save today) = today)
       \<and> (\<not> isTaken save today \<longrightarrow>
            toISODateKeyLocal (anchorDate save today) = keyBefore (makeLocalNoonDateFromISO today) 1)
       \<and> (\<not> isTaken save (toISODateKeyLocal (anchorDate save today)) \<longrightarrow>
            computeCurrentStreak z save today = Some \<lparr>length_si = 0, start_si = None, end_si = None\<rparr>)
       \<and> (isTaken save (toISODateKeyLocal (anchorDate save today)) \<longrightarrow>
            (\<exists>n>0. computeCurrentStreak z save today =
                Some \<lparr>length_si = int n,
                      start_si = Some (keyBefore (anchorDate save today) (n - 1)),
                      end_si = Some (toISODateKeyLocal (anchorDate save today))\<rparr>
              \<and> (\<forall>i<n. isTaken save (keyBefore (anchorDate save today) i))
              \<and> \<not> isTaken save (keyBefore (anchorDate save today) n)))
       \<and> (\<not> isTaken save today \<and> isTaken save (keyBefore (makeLocalNoonDateFromISO today) 1) \<longrightarrow>
            (\<exists>r. computeCurrentStreak z save today = Some r
               \<and> end_si r = Some (keyBefore (makeLocalNoonDateFromISO today) 1) \<and> 0 < length_si r))
       \<and> (\<not> isTaken save today \<and> \<not> isTaken save (keyBefore (makeLocalNoonDateFromISO today) 1) \<longrightarrow>
            computeCurrentStreak z save today = Some \<lparr>length_si = 0, start_si = None, end_si = None\<rparr>)"
proof -
  from assms(2) obtain t where t: "makeLocalNoonDateFromISO today = LocalTime t 43200000"
    and rt: "toISODateKeyLocal (LocalTime t 43200000) = today"
    by (rule calendar_day)
  note main = computeCurrentStreak_noons [OF z t, of save]
  have y: "\<not> isTaken save today \<Longrightarrow>
      toISODateKeyLocal (anchorDate save today) = keyBefore (makeLocalNoonDateFromISO today) 1"
    by (simp add: anchorDate_def t)
  show ?thesis
  proof (intro conjI)
    show "isTaken save today \<longrightarrow> toISODateKeyLocal (anchorDate save today) = today"
      using rt by (simp add: anchorDate_def t)
    show "\<not> isTaken save today \<longrightarrow>
            toISODateKeyLocal (anchorDate save today) = keyBefore (makeLocalNoonDateFromISO today) 1"
      using y by simp
    show "\<not> isTaken save today \<and> isTaken save (keyBefore (makeLocalNoonDateFromISO today) 1) \<longrightarrow>
            (\<exists>r. computeCurrentStreak z save today = Some r
               \<and> end_si r = Some (keyBefore (makeLocalNoonDateFromISO today) 1) \<and> 0 < length_si r)"
      using main y by auto
    show "\<not> isTaken save today \<and> \<not> isTaken save (keyBefore (makeLocalNoonDateFromISO today) 1) \<longrightarrow>
            computeCurrentStreak z save today = Some \<lparr>length_si = 0, start_si = None, end_si = None\<rparr>"
      using main y by auto
  qed (use main in blast)+
qed

lemma computeCurrentStreak_june:
  "keyBefore (makeLocalNoonDateFromISO ''2024-06-04'') 1 = ''2024-06-03''
   \<and> computeCurrentStreak (fixedOffset 0) juneRecord ''2024-06-04''
       = Some \<lparr>length_si = 3, start_si = Some ''2024-06-01'', end_si = Some ''2024-06-03''\<rparr>"
  by code_simp


text \<open>
  The walk does not get past a taken day whose day before is that day again: it
  counts the day for ever and does not return.
\<close>

lemma streakWalk_stuck:
  assumes "isTaken save (toISODateKeyLocal d)" and "addDaysLocalNoon z d (- 1) = d"
  shows "streakWalk z save d len = None"
proof (rule ccontr)
  assume "streakWalk z save d len \<noteq> None"
  then obtain y where y: "streakWalk z save d len = Some y" by auto
  have "\<not> (isTaken save (toISODateKeyLocal d) \<and> addDaysLocalNoon z d (- 1) = d)"
  proof (rule streakWalk.raw_induct
      [where P = "\<lambda>z save d len y.
         \<not> (isTaken save (toISODateKeyLocal d) \<and> addDaysLocalNoon z d (- 1) = d)", OF _ y])
    fix f z save d len r
    assume IH: "\<And>z save d len y. f z save d len = Some y \<Longrightarrow>
        \<not> (isTaken save (toISODateKeyLocal d) \<and> addDaysLocalNoon z d (- 1) = d)"
      and eq: "(let key = toISODateKeyLocal d in
          if \<not> isTaken save key then Some (len, d)
          else f z save (addDaysLocalNoon z d (- 1)) (len + 1)) = Some r"
    show "\<not> (isTaken save (toISODateKeyLocal d) \<and> addDaysLocalNoon z d (- 1) = d)"
    proof
      assume a: "isTaken save (toISODateKeyLocal d) \<and> addDaysLocalNoon z d (- 1) = d"
      with eq have "f z save d (len + 1) = Some r" by simp
      from IH [OF this] a show False by simp
    qed
  qed
  with assms show False by simp
qed


text \<open>
  Claim C1. The claim is that \<^verbatim>\<open>computeCurrentStreak\<close> returns the run of taken days
  that ends at the anchor. On a device in the zone of Samoa, for the record with
  31 December 2011 taken and that day as today, the anchor is today and is taken, the
  run is that one day (29 December, the day before in that zone, is not taken), and
  the call does not return: stepping back from noon of the 31st gives noon of the
  31st again.
\<close>

theorem computeCurrentStreak_skipped_day:
  "isCalendarDateKey ''2011-12-31''
   \<and> isTaken decemberRecord ''2011-12-31''
   \<and> \<not> isTaken decemberRecord ''2011-12-29''
   \<and> toISODateKeyLocal (addDaysLocalNoon apiaZone
         (inZone apiaZone (makeLocalNoonDateFromISO ''2011-12-31'')) (- 1)) = ''2011-12-31''
   \<and> computeCurrentStreak apiaZone decemberRecord ''2011-12-31'' = None"
proof -
  have k: "isCalendarDateKey ''2011-12-31''" by code_simp
  have t: "isTaken decemberRecord ''2011-12-31''" by (simp add: isTaken_def decemberRecord_def)
  have n: "\<not> isTaken decemberRecord ''2011-12-29''" by (simp add: isTaken_def decemberRecord_def)
  have "streakWalk apiaZone decemberRecord (LocalTime 15339 43200000) 0 = None"
    by (rule streakWalk_stuck [OF _ apia_new_years_eve]) (simp add: apia_dates t)
  with t have "computeCurrentStreak apiaZone decemberRecord ''2011-12-31'' = None"
    by (simp add: computeCurrentStreak_def apia_dates del: inZone.simps)
  with k t n show ?thesis by (simp add: apia_dates apia_new_years_eve del: inZone.simps)
qed

section \<open>Properties of the best streak\<close>

text \<open>
  The invariant of the scan after the keys \<open>xs\<close>: the running count is the length of
  the run of taken keys at the end of \<open>xs\<close> and the run start is its first key; the
  best length is the length of the longest run in \<open>xs\<close>, and the recorded best is the
  first run of that length.
\<close>

definition runInv :: "SaveDataV2 \<Rightarrow> string list \<Rightarrow> ScanState \<Rightarrow> nat \<Rightarrow> bool" where
  "runInv save xs st r =
     (runLen st = int r \<and> r \<le> length xs
      \<and> (\<forall>j<r. isTaken save (xs ! (length xs - r + j)))
      \<and> (r < length xs \<longrightarrow> \<not> isTaken save (xs ! (length xs - r - 1)))
      \<and> (r = 0 \<longrightarrow> runStart st = None)
      \<and> (0 < r \<longrightarrow> runStart st = Some (xs ! (length xs - r))))"

definition bestInv :: "SaveDataV2 \<Rightarrow> string list \<Rightarrow> ScanState \<Rightarrow> nat \<Rightarrow> bool" where
  "bestInv save xs st L =
     (bestLen st = int L
      \<and> (\<forall>i n. takenRun save xs i n \<longrightarrow> n \<le> L)
      \<and> (L = 0 \<longrightarrow> bestStart st = None \<and> bestEnd st = None)
      \<and> (0 < L \<longrightarrow>
           (\<exists>i. takenRun save xs i L \<and> (\<forall>i'<i. \<not> takenRun save xs i' L)
              \<and> bestStart st = Some (xs ! i) \<and> bestEnd st = Some (xs ! (i + L - 1)))))"

definition scanInv :: "SaveDataV2 \<Rightarrow> string list \<Rightarrow> ScanState \<Rightarrow> bool" where
  "scanInv save xs st = ((\<exists>r. runInv save xs st r) \<and> (\<exists>L. bestInv save xs st L))"

lemma runInvD:
  assumes "runInv save xs st r"
  shows "runLen st = int r" and "r \<le> length xs"
    and "\<And>j. j < r \<Longrightarrow> isTaken save (xs ! (length xs - r + j))"
    and "r < length xs \<Longrightarrow> \<not> isTaken save (xs ! (length xs - r - 1))"
    and "r = 0 \<Longrightarrow> runStart st = None"
    and "0 < r \<Longrightarrow> runStart st = Some (xs ! (length xs - r))"
  using assms unfolding runInv_def by blast+

lemma takenRun_prefix:
  "i + n \<le> length xs \<Longrightarrow> takenRun save (xs @ [k]) i n = takenRun save xs i n"
  by (auto simp: takenRun_def nth_append)

lemma takenRun_last:
  assumes "takenRun save (xs @ [k]) i n" and "\<not> i + n \<le> length xs"
  shows "isTaken save k" and "runInv save xs st r \<Longrightarrow> n \<le> r + 1"
proof -
  from assms have n: "0 < n" "i + n = length xs + 1"
    and all: "\<And>j. j < n \<Longrightarrow> isTaken save ((xs @ [k]) ! (i + j))"
    by (auto simp: takenRun_def)
  from all [of "n - 1"] n show "isTaken save k" by (simp add: nth_append)
  assume inv: "runInv save xs st r"
  show "n \<le> r + 1"
  proof (rule ccontr)
    assume "\<not> n \<le> r + 1"
    with n have r: "r < length xs" and j: "length xs - r - 1 - i < n" and i: "i \<le> length xs - r - 1"
      by simp_all
    from i have e: "i + (length xs - r - 1 - i) = length xs - r - 1" by arith
    from r have lt: "length xs - r - 1 < length xs" by arith
    from all [OF j] have "isTaken save ((xs @ [k]) ! (length xs - r - 1))" unfolding e .
    with lt have "isTaken save (xs ! (length xs - r - 1))" by (simp only: nth_append if_True)
    with runInvD(4) [OF inv r] show False by simp
  qed
qed

lemma bestInv_keep:
  assumes b: "bestInv save xs st L"
    and new: "\<And>i n. takenRun save (xs @ [k]) i n \<Longrightarrow> \<not> i + n \<le> length xs \<Longrightarrow> n \<le> L"
    and same: "bestLen st' = bestLen st" "bestStart st' = bestStart st" "bestEnd st' = bestEnd st"
  shows "bestInv save (xs @ [k]) st' L"
proof -
  have max: "\<forall>i n. takenRun save (xs @ [k]) i n \<longrightarrow> n \<le> L"
  proof (intro allI impI)
    fix i n assume t: "takenRun save (xs @ [k]) i n"
    show "n \<le> L"
    proof (cases "i + n \<le> length xs")
      case True
      with t b show ?thesis by (simp add: takenRun_prefix bestInv_def)
    next
      case False
      with t show ?thesis by (rule new)
    qed
  qed
  have wit: "\<exists>i. takenRun save (xs @ [k]) i L \<and> (\<forall>i'<i. \<not> takenRun save (xs @ [k]) i' L)
              \<and> bestStart st' = Some ((xs @ [k]) ! i) \<and> bestEnd st' = Some ((xs @ [k]) ! (i + L - 1))"
    if "0 < L"
  proof -
    from b that obtain i where i: "takenRun save xs i L" "\<forall>i'<i. \<not> takenRun save xs i' L"
      "bestStart st = Some (xs ! i)" "bestEnd st = Some (xs ! (i + L - 1))"
      by (auto simp: bestInv_def)
    from i(1) that have le: "i + L \<le> length xs" by (simp add: takenRun_def)
    with that have "i < length xs" "i + L - 1 < length xs" by simp_all
    then have "(xs @ [k]) ! i = xs ! i" "(xs @ [k]) ! (i + L - 1) = xs ! (i + L - 1)"
      by (simp_all add: nth_append)
    moreover have "takenRun save (xs @ [k]) i L" using i(1) le by (simp add: takenRun_prefix)
    moreover have "\<forall>i'<i. \<not> takenRun save (xs @ [k]) i' L"
      using i(2) le by (simp add: takenRun_prefix)
    ultimately show ?thesis using i(3,4) same by auto
  qed
  from b same max wit show ?thesis by (simp add: bestInv_def)
qed

lemma scanInv_step:
  assumes "scanInv save xs st"
  shows "scanInv save (xs @ [k]) (bestStep save st k)"
proof -
  from assms obtain r L where r: "runInv save xs st r" and L: "bestInv save xs st L"
    by (auto simp: scanInv_def)
  show ?thesis
  proof (cases "isTaken save k")
    case False
    let ?st = "st\<lparr>runLen := 0, runStart := None\<rparr>"
    have st: "bestStep save st k = ?st" using False by (simp add: bestStep_def)
    have "runInv save (xs @ [k]) ?st 0" using False by (simp add: runInv_def)
    moreover have "bestInv save (xs @ [k]) ?st L"
    proof (rule bestInv_keep [OF L])
      fix i n assume "takenRun save (xs @ [k]) i n" "\<not> i + n \<le> length xs"
      from takenRun_last(1) [OF this] False show "n \<le> L" by simp
    qed simp_all
    ultimately show ?thesis unfolding st scanInv_def by blast
  next
    case True
    let ?rs = "Some ((xs @ [k]) ! (length xs - r))"
    have rs: "(if runLen st = 0 then Some k else runStart st) = ?rs"
      using r by (auto simp: runInv_def nth_append)
    have run: "runInv save (xs @ [k]) st' (r + 1)"
      if "runLen st' = int r + 1" "runStart st' = ?rs" for st'
    proof -
      have "isTaken save ((xs @ [k]) ! (length xs - r + j))" if "j < r + 1" for j
      proof (cases "j < r")
        case True
        with runInvD(2) [OF r] have lt: "length xs - r + j < length xs" by arith
        from runInvD(3) [OF r True] lt show ?thesis by (simp only: nth_append if_True)
      next
        case False
        with that have "j = r" by simp
        with runInvD(2) [OF r] have "length xs - r + j = length xs" by simp
        with \<open>isTaken save k\<close> show ?thesis by (simp only: nth_append_length)
      qed
      moreover have "\<not> isTaken save ((xs @ [k]) ! (length xs - r - 1))" if "r < length xs"
      proof -
        from that have lt: "length xs - r - 1 < length xs" by arith
        from lt have "(xs @ [k]) ! (length xs - r - 1) = xs ! (length xs - r - 1)"
          by (simp only: nth_append if_True)
        with runInvD(4) [OF r that] show ?thesis by simp
      qed
      ultimately show ?thesis using that r by (simp add: runInv_def)
    qed
    let ?st = "bestStep save st k"
    have rf: "runLen ?st = int r + 1" "runStart ?st = ?rs"
      using True rs runInvD(1) [OF r] by (auto simp: bestStep_def Let_def split: if_splits)
    have rn: "runInv save (xs @ [k]) ?st (r + 1)" by (rule run [OF rf])
    have bl: "bestLen st = int L" using L by (simp add: bestInv_def)
    show ?thesis
    proof (cases "int r + 1 > int L")
      case False
      have same: "bestLen ?st = bestLen st" "bestStart ?st = bestStart st" "bestEnd ?st = bestEnd st"
        using True False bl runInvD(1) [OF r] by (simp_all add: bestStep_def Let_def)
      have "bestInv save (xs @ [k]) ?st L"
      proof (rule bestInv_keep [OF L _ same])
        fix i n assume "takenRun save (xs @ [k]) i n" "\<not> i + n \<le> length xs"
        from takenRun_last(2) [OF this r] False show "n \<le> L" by simp
      qed
      with rn show ?thesis unfolding scanInv_def by blast
    next
      case big: True
      have bf: "bestLen ?st = int (r + 1)" "bestStart ?st = ?rs" "bestEnd ?st = Some k"
        using True big bl rs runInvD(1) [OF r] by (auto simp: bestStep_def Let_def split: if_splits)
      have rl: "r \<le> length xs" by (rule runInvD(2) [OF r])
      have max: "\<forall>i n. takenRun save (xs @ [k]) i n \<longrightarrow> n \<le> r + 1"
      proof (intro allI impI)
        fix i n assume t: "takenRun save (xs @ [k]) i n"
        show "n \<le> r + 1"
        proof (cases "i + n \<le> length xs")
          case True
          with t L have "n \<le> L" by (simp add: takenRun_prefix bestInv_def)
          with big show ?thesis by simp
        next
          case False
          from takenRun_last(2) [OF t False r] show ?thesis .
        qed
      qed
      have w: "takenRun save (xs @ [k]) (length xs - r) (r + 1)"
        unfolding takenRun_def using runInvD(3) [OF rn] rl by simp
      have first: "\<forall>i'<length xs - r. \<not> takenRun save (xs @ [k]) i' (r + 1)"
      proof (intro allI impI notI)
        fix i' assume i': "i' < length xs - r" and t: "takenRun save (xs @ [k]) i' (r + 1)"
        from i' have "i' + (r + 1) \<le> length xs" by simp
        with t have "takenRun save xs i' (r + 1)" by (simp add: takenRun_prefix)
        with L have "r + 1 \<le> L" by (simp add: bestInv_def)
        with big show False by simp
      qed
      have e: "(xs @ [k]) ! (length xs - r + (r + 1) - 1) = k" using rl by (simp add: nth_append)
      have "bestInv save (xs @ [k]) ?st (r + 1)"
        unfolding bestInv_def bf using max w first e by auto
      with rn show ?thesis unfolding scanInv_def by blast
    qed
  qed
qed

lemma scanInv_foldl:
  "scanInv save xs st \<Longrightarrow> scanInv save (xs @ ks) (foldl (bestStep save) st ks)"
proof (induction ks arbitrary: xs st)
  case Nil
  then show ?case by simp
next
  case (Cons k ks)
  from Cons.IH [OF scanInv_step [OF Cons.prems, of k]] show ?case by simp
qed

lemma scanInv_init:
  "scanInv save [] \<lparr>bestLen = 0, bestStart = None, bestEnd = None, runLen = 0, runStart = None\<rparr>"
  by (simp add: scanInv_def runInv_def bestInv_def takenRun_def)

lemma bestOfKeys_bestInv:
  "\<exists>L. bestInv save ks
     \<lparr>bestLen = length_si (bestOfKeys save ks),
      bestStart = start_si (bestOfKeys save ks),
      bestEnd = end_si (bestOfKeys save ks), runLen = 0, runStart = None\<rparr> L"
proof -
  let ?st = "foldl (bestStep save)
    \<lparr>bestLen = 0, bestStart = None, bestEnd = None, runLen = 0, runStart = None\<rparr> ks"
  from scanInv_foldl [OF scanInv_init, of save ks] obtain L where "bestInv save ks ?st L"
    by (auto simp: scanInv_def)
  then have "bestInv save ks \<lparr>bestLen = bestLen ?st, bestStart = bestStart ?st,
      bestEnd = bestEnd ?st, runLen = 0, runStart = None\<rparr> L"
    by (simp add: bestInv_def)
  then show ?thesis by (auto simp: bestOfKeys_def Let_def)
qed

lemma bestInv_zero_iff:
  assumes "bestInv save ks st L"
  shows "(L = 0) = (\<forall>k\<in>set ks. \<not> isTaken save k)"
proof
  assume z: "L = 0"
  show "\<forall>k\<in>set ks. \<not> isTaken save k"
  proof
    fix k assume "k \<in> set ks"
    then obtain i where i: "i < length ks" "ks ! i = k" by (auto simp: in_set_conv_nth)
    show "\<not> isTaken save k"
    proof
      assume "isTaken save k"
      with i have "takenRun save ks i 1" by (simp add: takenRun_def)
      with assms z show False by (auto simp: bestInv_def)
    qed
  qed
next
  assume n: "\<forall>k\<in>set ks. \<not> isTaken save k"
  show "L = 0"
  proof (rule ccontr)
    assume "L \<noteq> 0"
    with assms obtain i where "takenRun save ks i L" by (auto simp: bestInv_def)
    with \<open>L \<noteq> 0\<close> have "i < length ks" "isTaken save (ks ! (i + 0))"
      by (auto simp: takenRun_def)
    with n show False by simp
  qed
qed


text \<open>
  The scan of \<^verbatim>\<open>computeBestStreak\<close>, on every list of keys in ascending order. No
  run of taken keys in the list is longer than the length it returns; if no key of
  the list is taken the result has length 0 and neither \<^verbatim>\<open>start\<close> nor \<^verbatim>\<open>end\<close>;
  otherwise the result is a run of that length, with \<^verbatim>\<open>start\<close> its first key and
  \<^verbatim>\<open>end\<close> its last, and no run of the same length starts earlier, so of several
  longest runs the first wins.
\<close>

lemma bestOfKeys_first_maximal:
  "(\<forall>i n. takenRun save ks i n \<longrightarrow> int n \<le> length_si (bestOfKeys save ks))
   \<and> ((\<forall>k\<in>set ks. \<not> isTaken save k) \<longrightarrow>
        bestOfKeys save ks = \<lparr>length_si = 0, start_si = None, end_si = None\<rparr>)
   \<and> ((\<exists>k\<in>set ks. isTaken save k) \<longrightarrow>
        (\<exists>i n. takenRun save ks i n
           \<and> bestOfKeys save ks =
               \<lparr>length_si = int n, start_si = Some (ks ! i), end_si = Some (ks ! (i + n - 1))\<rparr>
           \<and> (\<forall>i'<i. \<not> takenRun save ks i' n)))"
proof -
  let ?r = "bestOfKeys save ks"
  let ?zero = "\<lparr>length_si = 0, start_si = None, end_si = None\<rparr>"
  from bestOfKeys_bestInv [of save ks] obtain L where
    inv: "bestInv save ks \<lparr>bestLen = length_si ?r, bestStart = start_si ?r, bestEnd = end_si ?r,
      runLen = 0, runStart = None\<rparr> L" ..
  then have len: "length_si ?r = int L"
    and max: "\<And>i n. takenRun save ks i n \<Longrightarrow> n \<le> L"
    and zero: "L = 0 \<Longrightarrow> start_si ?r = None \<and> end_si ?r = None"
    and pos: "0 < L \<Longrightarrow> \<exists>i. takenRun save ks i L \<and> (\<forall>i'<i. \<not> takenRun save ks i' L)
              \<and> start_si ?r = Some (ks ! i) \<and> end_si ?r = Some (ks ! (i + L - 1))"
    by (simp_all add: bestInv_def)
  note z = bestInv_zero_iff [OF inv]
  have none: "?r = ?zero" if "\<forall>k\<in>set ks. \<not> isTaken save k"
  proof -
    from that z have "L = 0" by simp
    with len zero show ?thesis by simp
  qed
  have c1: "\<forall>i n. takenRun save ks i n \<longrightarrow> int n \<le> length_si ?r"
    using max len by auto
  have c3: "\<exists>i n. takenRun save ks i n
           \<and> ?r = \<lparr>length_si = int n, start_si = Some (ks ! i), end_si = Some (ks ! (i + n - 1))\<rparr>
           \<and> (\<forall>i'<i. \<not> takenRun save ks i' n)" if "\<exists>k\<in>set ks. isTaken save k"
  proof -
    from that z have "0 < L" by auto
    from pos [OF this] obtain i where i: "takenRun save ks i L" "\<forall>i'<i. \<not> takenRun save ks i' L"
      "start_si ?r = Some (ks ! i)" "end_si ?r = Some (ks ! (i + L - 1))" by blast
    from len i(3,4) have "?r = \<lparr>length_si = int L, start_si = Some (ks ! i), end_si = Some (ks ! (i + L - 1))\<rparr>"
      by simp
    with i(1,2) show ?thesis by blast
  qed
  from c1 none c3 show ?thesis by blast
qed


text \<open>
  In a zone where every calendar day has a noon, \<^verbatim>\<open>computeBestStreak\<close> returns for
  day keys \<open>start\<close> and \<open>end\<close>: the result of the scan over the keys of the range
  in ascending order, which is the result of length 0 when \<open>start\<close> is later than
  \<open>end\<close>.
\<close>

lemma computeBestStreak_noons:
  assumes z: "everyDayHasNoon z" and "isCalendarDateKey start" "isCalendarDateKey end"
  shows "\<exists>ks. buildHistoryKeysInclusive z start end = Some ks
       \<and> computeBestStreak z save start end = Some (bestOfKeys save (rev ks))
       \<and> (compareISODate start end > 0 \<longrightarrow>
            computeBestStreak z save start end = Some \<lparr>length_si = 0, start_si = None, end_si = None\<rparr>)"
proof -
  from buildHistoryKeysInclusive_range_noons [OF assms] obtain ks where
    ks: "buildHistoryKeysInclusive z start end = Some ks"
    and e: "compareISODate start end > 0 \<longrightarrow> ks = []"
    by blast
  have r: "computeBestStreak z save start end = Some (bestOfKeys save (rev ks))"
    by (simp add: computeBestStreak_def ks)
  have "bestOfKeys save [] = \<lparr>length_si = 0, start_si = None, end_si = None\<rparr>"
    by (simp add: bestOfKeys_def)
  with ks r e show ?thesis by auto
qed

lemma computeBestStreak_may:
  "computeBestStreak (fixedOffset 0) mayRecord ''2024-05-01'' ''2024-05-03''
       = Some \<lparr>length_si = 1, start_si = Some ''2024-05-01'', end_si = Some ''2024-05-01''\<rparr>
   \<and> computeBestStreak (fixedOffset 0) mayRecord ''2024-05-03'' ''2024-05-01''
       = Some \<lparr>length_si = 0, start_si = None, end_si = None\<rparr>"
  by code_simp


text \<open>
  Claim C2. The claim is that \<^verbatim>\<open>computeBestStreak\<close> returns the longest run of taken
  days of the range. On a device in the zone of Samoa, for the record with
  31 December 2011 taken and the range from \<^verbatim>\<open>2011-12-29\<close> to \<^verbatim>\<open>2011-12-31\<close>, the
  longest run is that one day and the call does not return, because
  \<^verbatim>\<open>buildHistoryKeysInclusive\<close> does not return the keys of the range.
\<close>

theorem computeBestStreak_skipped_day:
  "isCalendarDateKey ''2011-12-29'' \<and> isCalendarDateKey ''2011-12-31''
   \<and> compareISODate ''2011-12-29'' ''2011-12-31'' \<le> 0
   \<and> isTaken decemberRecord ''2011-12-31''
   \<and> bestOfKeys decemberRecord [''2011-12-29'', ''2011-12-31'']
       = \<lparr>length_si = 1, start_si = Some ''2011-12-31'', end_si = Some ''2011-12-31''\<rparr>
   \<and> computeBestStreak apiaZone decemberRecord ''2011-12-29'' ''2011-12-31'' = None"
proof -
  have s: "isCalendarDateKey ''2011-12-29''" by code_simp
  have e: "isCalendarDateKey ''2011-12-31''" by code_simp
  have c: "compareISODate ''2011-12-29'' ''2011-12-31'' \<le> 0" by (simp add: compareISODate_def)
  have t: "isTaken decemberRecord ''2011-12-31''" by (simp add: isTaken_def decemberRecord_def)
  have b: "bestOfKeys decemberRecord [''2011-12-29'', ''2011-12-31'']
       = \<lparr>length_si = 1, start_si = Some ''2011-12-31'', end_si = Some ''2011-12-31''\<rparr>"
    by code_simp
  have "historyLoop apiaZone (LocalTime 15337 43200000) (LocalTime 15339 43200000) [] = None"
    by (rule historyLoop_stuck [OF _ apia_new_years_eve]) simp
  then have "computeBestStreak apiaZone decemberRecord ''2011-12-29'' ''2011-12-31'' = None"
    by (simp add: computeBestStreak_def buildHistoryKeysInclusive_def apia_dates del: inZone.simps)
  with s e c t b show ?thesis by simp
qed

section \<open>The shape of a streak\<close>

text \<open>
  Whatever the streak functions return has the shape of a \<^verbatim>\<open>StreakInfo\<close>: the scan
  of \<^verbatim>\<open>computeBestStreak\<close> on every list of keys, and both functions in every zone, on
  keys of the shape \<^verbatim>\<open>YYYY-MM-DD\<close>, if they return. In a zone where every calendar
  day has a noon both return.
\<close>

lemma streakInfoShape_bestOfKeys: "streakInfoShape (bestOfKeys save ks)"
proof -
  let ?r = "bestOfKeys save ks"
  from bestOfKeys_bestInv [of save ks] obtain L where
    inv: "bestInv save ks \<lparr>bestLen = length_si ?r, bestStart = start_si ?r, bestEnd = end_si ?r,
      runLen = 0, runStart = None\<rparr> L" ..
  then show ?thesis
    by (cases "L = 0") (auto simp: bestInv_def streakInfoShape_def)
qed

lemma streakWalk_len:
  assumes "streakWalk z save d len = Some y"
  shows "len \<le> fst y \<and> (isTaken save (toISODateKeyLocal d) \<longrightarrow> len < fst y)"
proof (rule streakWalk.raw_induct
    [where P = "\<lambda>z save d len y.
       len \<le> fst y \<and> (isTaken save (toISODateKeyLocal d) \<longrightarrow> len < fst y)", OF _ assms])
  fix f :: "TimeZone \<Rightarrow> SaveDataV2 \<Rightarrow> Date \<Rightarrow> int \<Rightarrow> (int \<times> Date) option"
    and z save d len r
  assume IH: "\<And>z save d len y. f z save d len = Some y \<Longrightarrow>
      len \<le> fst y \<and> (isTaken save (toISODateKeyLocal d) \<longrightarrow> len < fst y)"
    and eq: "(let key = toISODateKeyLocal d in
        if \<not> isTaken save key then Some (len, d)
        else f z save (addDaysLocalNoon z d (- 1)) (len + 1)) = Some r"
  show "len \<le> fst r \<and> (isTaken save (toISODateKeyLocal d) \<longrightarrow> len < fst r)"
  proof (cases "isTaken save (toISODateKeyLocal d)")
    case False
    with eq show ?thesis by auto
  next
    case True
    with eq have "f z save (addDaysLocalNoon z d (- 1)) (len + 1) = Some r" by simp
    from IH [OF this] show ?thesis by simp
  qed
qed

lemma streakInfoShape_returned:
  assumes "matchesISODate start" "matchesISODate end" "matchesISODate today"
  shows "(computeBestStreak z save start end = Some r \<longrightarrow> streakInfoShape r)
       \<and> (computeCurrentStreak z save today = Some r' \<longrightarrow> streakInfoShape r')"
proof (intro conjI impI)
  assume "computeBestStreak z save start end = Some r"
  then show "streakInfoShape r"
    by (auto simp: computeBestStreak_def streakInfoShape_bestOfKeys)
next
  assume r: "computeCurrentStreak z save today = Some r'"
  let ?c = "if isTaken save today then inZone z (makeLocalNoonDateFromISO today)
            else addDaysLocalNoon z (inZone z (makeLocalNoonDateFromISO today)) (- 1)"
  show "streakInfoShape r'"
  proof (cases "isTaken save (toISODateKeyLocal ?c)")
    case False
    with r have "r' = \<lparr>length_si = 0, start_si = None, end_si = None\<rparr>"
      by (simp add: computeCurrentStreak_def Let_def del: inZone.simps)
    then show ?thesis by (simp add: streakInfoShape_def)
  next
    case True
    with r obtain len cursor where w: "streakWalk z save ?c 0 = Some (len, cursor)"
      and r': "r' = \<lparr>length_si = len,
            start_si = Some (toISODateKeyLocal (addDaysLocalNoon z cursor 1)),
            end_si = Some (toISODateKeyLocal ?c)\<rparr>"
      by (auto simp: computeCurrentStreak_def Let_def simp del: inZone.simps)
    from streakWalk_len [OF w] True have "0 < len" by simp
    with r' show ?thesis by (simp add: streakInfoShape_def)
  qed
qed

lemma streakInfoShape_noons:
  assumes z: "everyDayHasNoon z"
    and "isCalendarDateKey start" "isCalendarDateKey end" "isCalendarDateKey today"
  shows "(\<exists>r. computeBestStreak z save start end = Some r \<and> streakInfoShape r)
       \<and> (\<exists>r. computeCurrentStreak z save today = Some r \<and> streakInfoShape r)"
proof
  from computeBestStreak_noons [OF z assms(2,3), of save]
  show "\<exists>r. computeBestStreak z save start end = Some r \<and> streakInfoShape r"
    by (auto simp: streakInfoShape_bestOfKeys)
next
  from assms(4) obtain t where t: "makeLocalNoonDateFromISO today = LocalTime t 43200000"
    by (rule calendar_day)
  from computeCurrentStreak_noons [OF z t, of save]
  have "\<exists>r. computeCurrentStreak z save today = Some r"
    by (cases "isTaken save (toISODateKeyLocal (anchorDate save today))") auto
  moreover from assms(2-4) have "matchesISODate start" "matchesISODate end" "matchesISODate today"
    by (simp_all add: isCalendarDateKey_def)
  ultimately show "\<exists>r. computeCurrentStreak z save today = Some r \<and> streakInfoShape r"
    using streakInfoShape_returned [of start "end" today z save] by blast
qed


text \<open>
  Claim C9. The claim is that both streak functions return, on every record and
  every input, a \<^verbatim>\<open>StreakInfo\<close> of that shape. On a device in the zone of Samoa, for
  the record with 31 December 2011 and 1 January 2012 taken, neither returns:
  \<^verbatim>\<open>computeCurrentStreak\<close> on 1 January 2012 counts that day, steps back to the 31st
  and stays there, and \<^verbatim>\<open>computeBestStreak\<close> over the range from \<^verbatim>\<open>2011-12-28\<close> to
  \<^verbatim>\<open>2012-01-01\<close> waits for keys that \<^verbatim>\<open>buildHistoryKeysInclusive\<close> does not return.
\<close>

theorem streakInfo_skipped_day:
  "isCalendarDateKey ''2011-12-28'' \<and> isCalendarDateKey ''2012-01-01''
   \<and> compareISODate ''2011-12-28'' ''2012-01-01'' \<le> 0
   \<and> computeCurrentStreak apiaZone newYearRecord ''2012-01-01'' = None
   \<and> computeBestStreak apiaZone newYearRecord ''2011-12-28'' ''2012-01-01'' = None"
proof -
  have s: "isCalendarDateKey ''2011-12-28''" by code_simp
  have e: "isCalendarDateKey ''2012-01-01''" by code_simp
  have c: "compareISODate ''2011-12-28'' ''2012-01-01'' \<le> 0" by (simp add: compareISODate_def)
  have t: "isTaken newYearRecord ''2012-01-01''" "isTaken newYearRecord ''2011-12-31''"
    by (simp_all add: isTaken_def newYearRecord_def)
  have "streakWalk apiaZone newYearRecord (LocalTime 15339 43200000) 1 = None"
    by (rule streakWalk_stuck [OF _ apia_new_years_eve]) (simp add: apia_dates t)
  then have "streakWalk apiaZone newYearRecord (LocalTime 15340 43200000) 0 = None"
    by (subst streakWalk.simps) (simp add: apia_dates t)
  with t have cur: "computeCurrentStreak apiaZone newYearRecord ''2012-01-01'' = None"
    by (simp add: computeCurrentStreak_def apia_dates del: inZone.simps)
  have "historyLoop apiaZone (LocalTime 15336 43200000) (LocalTime 15339 43200000)
      [''2012-01-01''] = None"
    by (rule historyLoop_stuck [OF _ apia_new_years_eve]) simp
  then have "historyLoop apiaZone (LocalTime 15336 43200000) (LocalTime 15340 43200000) [] = None"
    by (subst historyLoop.simps) (simp add: apia_dates)
  then have "computeBestStreak apiaZone newYearRecord ''2011-12-28'' ''2012-01-01'' = None"
    by (simp add: computeBestStreak_def buildHistoryKeysInclusive_def apia_dates del: inZone.simps)
  with s e c cur show ?thesis by simp
qed

end
